theory Spec2Isabelle
  imports Main
begin

section \<open>Data model\<close>

text \<open>
  The simulator keeps \<^verbatim>\<open>Process\<close> and \<^verbatim>\<open>Partition\<close> objects that point at each
  other and are shared by several queues. Objects are modelled by an explicit store:
  a reference is a natural number, the store maps references to records, and every
  queue is a list of references. Python compares these objects by identity (neither
  class defines \<^verbatim>\<open>__eq__\<close>), so \<^verbatim>\<open>p in queue\<close> is membership of the reference and
  \<^verbatim>\<open>queue.remove(p)\<close> removes its first occurrence. Python integers are unbounded:
  \<open>int\<close>.
\<close>

datatype ProcessState = New | Ready | Executing | Suspended | Terminated

record Process =
  proc_id :: int
  proc_size :: int
  arrival_time :: int
  burst_time :: int
  state :: ProcessState
  remaining_time :: int
  partition :: "nat option"
  wait_time :: int
  finish_time :: int
  turnaround_time :: int
  first_execution_time :: "int option"

record Partition =
  part_id :: int
  part_size :: int
  start_address :: int
  process :: "nat option"
  internal_fragmentation :: int

text \<open>
  One record holds the fields of \<^verbatim>\<open>Simulator\<close>, of its \<^verbatim>\<open>MemoryManager\<close>
  (\<open>partitions\<close>) and of its \<^verbatim>\<open>Scheduler\<close> (\<open>current_process\<close>), and the two object
  stores. The \<^verbatim>\<open>Display\<close> object only prints and is left out.
\<close>

record sim =
  procs :: "nat \<Rightarrow> Process"
  parts :: "nat \<Rightarrow> Partition"
  partitions :: "nat list"
  degree_of_multiprogramming :: int
  clock :: int
  current_process :: "nat option"
  all_processes :: "nat list"
  loaded_processes :: "nat list"
  new_queue :: "nat list"
  ready_queue :: "nat list"
  suspended_queue :: "nat list"
  terminated_queue :: "nat list"
  new_process_arrived :: bool
  process_finished :: bool

text \<open>\<^verbatim>\<open>Process.__init__\<close> and \<^verbatim>\<open>Partition.__init__\<close>.\<close>

definition new_Process :: "int \<times> int \<times> int \<times> int \<Rightarrow> Process" where
  "new_Process r = (case r of (i, sz, arr, burst) \<Rightarrow>
     \<lparr>proc_id = i, proc_size = sz, arrival_time = arr, burst_time = burst,
      state = New, remaining_time = burst, partition = None,
      wait_time = 0, finish_time = 0, turnaround_time = 0,
      first_execution_time = None\<rparr>)"

definition new_Partition :: "int \<times> int \<times> int \<Rightarrow> Partition" where
  "new_Partition r = (case r of (i, sz, start) \<Rightarrow>
     \<lparr>part_id = i, part_size = sz, start_address = start,
      process = None, internal_fragmentation = 0\<rparr>)"

text \<open>Writing one field of one object in the store.\<close>

definition upd_proc :: "sim \<Rightarrow> nat \<Rightarrow> (Process \<Rightarrow> Process) \<Rightarrow> sim" where
  "upd_proc s p f = s\<lparr>procs := (procs s)(p := f (procs s p))\<rparr>"

definition upd_part :: "sim \<Rightarrow> nat \<Rightarrow> (Partition \<Rightarrow> Partition) \<Rightarrow> sim" where
  "upd_part s i f = s\<lparr>parts := (parts s)(i := f (parts s i))\<rparr>"

section \<open>Partition\<close>

definition is_free :: "Partition \<Rightarrow> bool" where
  "is_free pt \<longleftrightarrow> process pt = None"

text \<open>\<^verbatim>\<open>Partition.assign_process\<close>: refuses an occupied or too small partition.\<close>

definition assign_process :: "sim \<Rightarrow> nat \<Rightarrow> nat \<Rightarrow> sim \<times> bool" where
  "assign_process s i p =
     (if \<not> is_free (parts s i) then (s, False)
      else if part_size (parts s i) < proc_size (procs s p) then (s, False)
      else
        (let s1 = upd_part s i (\<lambda>pt. pt\<lparr>process := Some p\<rparr>);
             s2 = upd_part s1 i (\<lambda>pt. pt\<lparr>internal_fragmentation :=
                    part_size (parts s1 i) - proc_size (procs s1 p)\<rparr>);
             s3 = upd_proc s2 p (\<lambda>pr. pr\<lparr>partition := Some i\<rparr>)
         in (s3, True)))"

text \<open>\<^verbatim>\<open>Partition.free\<close>: clears both directions and returns the former occupant.\<close>

definition free :: "sim \<Rightarrow> nat \<Rightarrow> sim \<times> nat option" where
  "free s i =
     (case process (parts s i) of
        None \<Rightarrow> (s, None)
      | Some q \<Rightarrow>
          (let s1 = upd_proc s q (\<lambda>pr. pr\<lparr>partition := None\<rparr>);
               s2 = upd_part s1 i (\<lambda>pt. pt\<lparr>process := None\<rparr>);
               s3 = upd_part s2 i (\<lambda>pt. pt\<lparr>internal_fragmentation := 0\<rparr>)
           in (s3, Some q)))"

section \<open>MemoryManager\<close>

text \<open>
  \<^verbatim>\<open>find_best_fit\<close>: the loop over \<^verbatim>\<open>self.partitions\<close> with its two accumulators.
  \<^verbatim>\<open>min_fragmentation\<close> starts at \<^verbatim>\<open>float('inf')\<close>, which every integer is below:
  \<open>None\<close> stands for it.
\<close>

fun find_best_fit_loop ::
  "sim \<Rightarrow> nat \<Rightarrow> nat list \<Rightarrow> nat option \<Rightarrow> int option \<Rightarrow> nat option" where
  "find_best_fit_loop s p [] best_partition min_fragmentation = best_partition"
| "find_best_fit_loop s p (i # rest) best_partition min_fragmentation =
     (if is_free (parts s i) \<and> part_size (parts s i) \<ge> proc_size (procs s p) then
        (let fragmentation = part_size (parts s i) - proc_size (procs s p) in
         if (case min_fragmentation of None \<Rightarrow> True | Some m \<Rightarrow> fragmentation < m)
         then find_best_fit_loop s p rest (Some i) (Some fragmentation)
         else find_best_fit_loop s p rest best_partition min_fragmentation)
      else find_best_fit_loop s p rest best_partition min_fragmentation)"

definition find_best_fit :: "sim \<Rightarrow> nat \<Rightarrow> nat option" where
  "find_best_fit s p = find_best_fit_loop s p (partitions s) None None"

text \<open>
  \<^verbatim>\<open>allocate_process\<close>, with its branch for an occupied partition as the source has
  it: \<^verbatim>\<open>partition.free()\<close>, then the old occupant is marked Suspended.
\<close>

definition allocate_process :: "sim \<Rightarrow> nat \<Rightarrow> sim \<times> bool" where
  "allocate_process s p =
     (case find_best_fit s p of
        None \<Rightarrow> (s, False)
      | Some i \<Rightarrow>
          (let s1 =
                 (if \<not> is_free (parts s i) then
                    (case free s i of
                       (s', None) \<Rightarrow> s'
                     | (s', Some old_process) \<Rightarrow>
                         upd_proc (upd_proc s' old_process (\<lambda>pr. pr\<lparr>state := Suspended\<rparr>))
                           old_process (\<lambda>pr. pr\<lparr>partition := None\<rparr>))
                  else s);
               s2 = fst (assign_process s1 i p);
               s3 = upd_proc s2 p (\<lambda>pr. pr\<lparr>state := Ready\<rparr>)
           in (s3, True)))"

definition free_process :: "sim \<Rightarrow> nat \<Rightarrow> sim" where
  "free_process s p =
     (case partition (procs s p) of
        None \<Rightarrow> s
      | Some i \<Rightarrow> upd_proc (fst (free s i)) p (\<lambda>pr. pr\<lparr>partition := None\<rparr>))"

section \<open>Scheduler\<close>

text \<open>
  Python's \<^verbatim>\<open>min(queue, key=...)\<close> keeps the first element whose key is minimal: the
  candidate is replaced only by a strictly smaller one.
\<close>

fun min_remaining :: "sim \<Rightarrow> nat \<Rightarrow> nat list \<Rightarrow> nat" where
  "min_remaining s b [] = b"
| "min_remaining s b (x # xs) =
     (if remaining_time (procs s x) < remaining_time (procs s b)
      then min_remaining s x xs else min_remaining s b xs)"

definition select_next_process :: "sim \<Rightarrow> nat list \<Rightarrow> nat option" where
  "select_next_process s ready =
     (case ready of [] \<Rightarrow> None | x # xs \<Rightarrow> Some (min_remaining s x xs))"

definition should_preempt :: "sim \<Rightarrow> nat list \<Rightarrow> bool" where
  "should_preempt s ready =
     (case current_process s of
        None \<Rightarrow> False
      | Some c \<Rightarrow>
          (case ready of
             [] \<Rightarrow> False
           | x # xs \<Rightarrow>
               remaining_time (procs s (min_remaining s x xs)) < remaining_time (procs s c)))"

definition start_execution :: "sim \<Rightarrow> nat \<Rightarrow> sim" where
  "start_execution s p =
     upd_proc (s\<lparr>current_process := Some p\<rparr>) p (\<lambda>pr. pr\<lparr>state := Executing\<rparr>)"

text \<open>\<^verbatim>\<open>Scheduler.execute_tick\<close>: one unit of CPU for the current process.\<close>

definition execute_tick :: "sim \<Rightarrow> sim \<times> nat option" where
  "execute_tick s =
     (case current_process s of
        None \<Rightarrow> (s, None)
      | Some c \<Rightarrow>
          (let s1 = upd_proc s c (\<lambda>pr. pr\<lparr>remaining_time := remaining_time pr - 1\<rparr>) in
           if remaining_time (procs s1 c) \<le> 0 then
             (upd_proc s1 c (\<lambda>pr. pr\<lparr>state := Terminated\<rparr>)\<lparr>current_process := None\<rparr>, Some c)
           else (s1, None)))"

definition preempt_current :: "sim \<Rightarrow> sim \<times> nat option" where
  "preempt_current s =
     (case current_process s of
        None \<Rightarrow> (s, None)
      | Some c \<Rightarrow> (upd_proc s c (\<lambda>pr. pr\<lparr>state := Ready\<rparr>)\<lparr>current_process := None\<rparr>, Some c))"

section \<open>Simulator\<close>

text \<open>
  \<^verbatim>\<open>Simulator.__init__\<close> followed by \<^verbatim>\<open>load_processes\<close>, on freshly constructed
  objects: the process read from row \<open>k\<close> gets reference \<open>k\<close>, and so do the
  partitions. References past the end of the input hold an unused blank object.
\<close>

definition initial :: "(int \<times> int \<times> int \<times> int) list \<Rightarrow> (int \<times> int \<times> int) list \<Rightarrow> int \<Rightarrow> sim" where
  "initial rows pcfg degree =
     \<lparr>procs = (\<lambda>k. if k < length rows then new_Process (rows ! k) else new_Process (0, 0, 0, 0)),
      parts = (\<lambda>k. if k < length pcfg then new_Partition (pcfg ! k) else new_Partition (0, 0, 0)),
      partitions = [0 ..< length pcfg],
      degree_of_multiprogramming = degree,
      clock = 0,
      current_process = None,
      all_processes = [0 ..< length rows],
      loaded_processes = [0 ..< length rows],
      new_queue = [],
      ready_queue = [],
      suspended_queue = [],
      terminated_queue = [],
      new_process_arrived = False,
      process_finished = False\<rparr>"

text \<open>The resident count \<^verbatim>\<open>len(ready_queue) + (1 if current_process else 0)\<close>.\<close>

definition current_dom :: "sim \<Rightarrow> int" where
  "current_dom s =
     int (length (ready_queue s)) + (if current_process s \<noteq> None then 1 else 0)"

definition suspend :: "sim \<Rightarrow> nat \<Rightarrow> sim" where
  "suspend s p =
     (let s1 = upd_proc s p (\<lambda>pr. pr\<lparr>state := Suspended\<rparr>) in
      if p \<notin> set (suspended_queue s1)
      then s1\<lparr>suspended_queue := suspended_queue s1 @ [p]\<rparr> else s1)"

text \<open>\<^verbatim>\<open>_try_load_to_memory\<close>; \<open>suspend\<close> is the block both of its refusals run.\<close>

definition try_load_to_memory :: "sim \<Rightarrow> nat \<Rightarrow> sim" where
  "try_load_to_memory s p =
     (if current_dom s \<ge> degree_of_multiprogramming s then suspend s p
      else
        (case allocate_process s p of
           (s1, True) \<Rightarrow>
             (let s2 = (if p \<notin> set (ready_queue s1)
                        then s1\<lparr>ready_queue := ready_queue s1 @ [p]\<rparr> else s1)
              in if p \<in> set (suspended_queue s2)
                 then s2\<lparr>suspended_queue := remove1 p (suspended_queue s2)\<rparr> else s2)
         | (s1, False) \<Rightarrow> suspend s1 p))"

text \<open>
  \<^verbatim>\<open>_arrive_new_processes\<close>: the first loop sorts \<^verbatim>\<open>all_processes\<close> into the
  arrived ones (marked New) and the ones still to come; a process whose arrival time
  is already past is in neither. The second loop loads the arrived ones in order.
\<close>

fun arrive_scan :: "sim \<Rightarrow> nat list \<Rightarrow> nat list \<Rightarrow> nat list \<Rightarrow> sim \<times> nat list \<times> nat list" where
  "arrive_scan s [] arrived remaining = (s, arrived, remaining)"
| "arrive_scan s (p # ps) arrived remaining =
     (if arrival_time (procs s p) = clock s then
        arrive_scan (upd_proc s p (\<lambda>pr. pr\<lparr>state := New\<rparr>)\<lparr>new_process_arrived := True\<rparr>)
          ps (arrived @ [p]) remaining
      else if arrival_time (procs s p) > clock s then
        arrive_scan s ps arrived (remaining @ [p])
      else arrive_scan s ps arrived remaining)"

fun load_each :: "sim \<Rightarrow> nat list \<Rightarrow> sim" where
  "load_each s [] = s"
| "load_each s (p # ps) = load_each (try_load_to_memory s p) ps"

definition arrive_new_processes :: "sim \<Rightarrow> sim" where
  "arrive_new_processes s =
     (case arrive_scan s (all_processes s) [] [] of
        (s1, arrived, remaining) \<Rightarrow> load_each (s1\<lparr>all_processes := remaining\<rparr>) arrived)"

text \<open>
  \<^verbatim>\<open>_try_load_suspended\<close>: the loop runs over the suspended queue, which it does not
  change (the removals come after it), with the local counter \<^verbatim>\<open>current_dom\<close> and
  the list \<^verbatim>\<open>to_remove\<close>; \<^verbatim>\<open>break\<close> ends it.
\<close>

fun load_suspended_loop :: "sim \<Rightarrow> nat list \<Rightarrow> int \<Rightarrow> nat list \<Rightarrow> sim \<times> nat list" where
  "load_suspended_loop s [] cur_dom to_remove = (s, to_remove)"
| "load_suspended_loop s (p # ps) cur_dom to_remove =
     (if cur_dom \<ge> degree_of_multiprogramming s then (s, to_remove)
      else
        (case allocate_process s p of
           (s1, True) \<Rightarrow>
             load_suspended_loop
               (if p \<notin> set (ready_queue s1)
                then s1\<lparr>ready_queue := ready_queue s1 @ [p]\<rparr> else s1)
               ps (cur_dom + 1) (to_remove @ [p])
         | (s1, False) \<Rightarrow> load_suspended_loop s1 ps cur_dom to_remove))"

fun remove_each :: "nat list \<Rightarrow> nat list \<Rightarrow> nat list" where
  "remove_each q [] = q"
| "remove_each q (p # ps) = remove_each (remove1 p q) ps"

definition try_load_suspended :: "sim \<Rightarrow> sim" where
  "try_load_suspended s =
     (if current_dom s \<ge> degree_of_multiprogramming s then s
      else
        (case load_suspended_loop s (suspended_queue s) (current_dom s) [] of
           (s1, to_remove) \<Rightarrow>
             s1\<lparr>suspended_queue := remove_each (suspended_queue s1) to_remove\<rparr>))"

text \<open>
  \<^verbatim>\<open>_update_wait_times\<close>. \<^verbatim>\<open>executing_id\<close> is the \<^verbatim>\<open>id\<close> field of the current
  process or \<^verbatim>\<open>None\<close>, and an integer is never equal to \<^verbatim>\<open>None\<close>.
\<close>

fun wait_loop :: "sim \<Rightarrow> int option \<Rightarrow> nat list \<Rightarrow> sim" where
  "wait_loop s executing_id [] = s"
| "wait_loop s executing_id (p # ps) =
     (if (state (procs s p) = Ready \<or> state (procs s p) = Suspended)
         \<and> Some (proc_id (procs s p)) \<noteq> executing_id
         \<and> first_execution_time (procs s p) = None
      then wait_loop (upd_proc s p (\<lambda>pr. pr\<lparr>wait_time := wait_time pr + 1\<rparr>)) executing_id ps
      else wait_loop s executing_id ps)"

definition update_wait_times :: "sim \<Rightarrow> sim" where
  "update_wait_times s =
     wait_loop s (map_option (\<lambda>c. proc_id (procs s c)) (current_process s))
       (ready_queue s @ suspended_queue s)"

text \<open>
  \<^verbatim>\<open>_schedule_process\<close> is its two statements in sequence: the preemption check,
  then the selection of the next process when the CPU is idle.
\<close>

definition preempt_phase :: "sim \<Rightarrow> sim" where
  "preempt_phase s =
     (if should_preempt s (ready_queue s) then
        (case preempt_current s of
           (s1, None) \<Rightarrow> s1
         | (s1, Some preempted) \<Rightarrow>
             (if preempted \<notin> set (ready_queue s1)
              then s1\<lparr>ready_queue := ready_queue s1 @ [preempted]\<rparr> else s1))
      else s)"

definition select_phase :: "sim \<Rightarrow> sim" where
  "select_phase s =
     (if current_process s = None then
        (case select_next_process s (ready_queue s) of
           None \<Rightarrow> s
         | Some next_process \<Rightarrow>
             (let s1 = (if first_execution_time (procs s next_process) = None
                        then upd_proc s next_process
                               (\<lambda>pr. pr\<lparr>first_execution_time := Some (clock s)\<rparr>)
                        else s);
                  s2 = start_execution s1 next_process
              in if next_process \<in> set (ready_queue s2)
                 then s2\<lparr>ready_queue := remove1 next_process (ready_queue s2)\<rparr> else s2))
      else s)"

definition schedule_process :: "sim \<Rightarrow> sim" where
  "schedule_process s = select_phase (preempt_phase s)"

text \<open>\<^verbatim>\<open>Process.calculate_statistics\<close>.\<close>

definition calculate_statistics :: "Process \<Rightarrow> Process" where
  "calculate_statistics pr =
     (let pr1 = pr\<lparr>turnaround_time := finish_time pr - arrival_time pr\<rparr> in
      case first_execution_time pr1 of
        Some f \<Rightarrow> pr1\<lparr>wait_time := f - arrival_time pr1\<rparr>
      | None \<Rightarrow> pr1\<lparr>wait_time := turnaround_time pr1 - burst_time pr1\<rparr>)"

text \<open>\<^verbatim>\<open>Simulator._execute_tick\<close>.\<close>

definition sim_execute_tick :: "sim \<Rightarrow> sim" where
  "sim_execute_tick s =
     (case execute_tick s of
        (s1, None) \<Rightarrow> s1
      | (s1, Some finished) \<Rightarrow>
          (if remaining_time (procs s1 finished) \<le> 0 \<and> state (procs s1 finished) = Terminated
           then
             (let s2 = upd_proc s1 finished (\<lambda>pr. pr\<lparr>finish_time := clock s1 + 1\<rparr>);
                  s3 = upd_proc s2 finished calculate_statistics;
                  s4 = free_process s3 finished;
                  s5 = (if finished \<notin> set (terminated_queue s4)
                        then s4\<lparr>terminated_queue := terminated_queue s4 @ [finished]\<rparr>
                        else s4)
              in s5\<lparr>current_process := None, process_finished := True\<rparr>)
           else s1))"

text \<open>
  One pass of the loop body of \<^verbatim>\<open>run\<close>. Step 6 of the body only prints and waits
  for the Enter key; it changes nothing and is left out. \<open>before_execute\<close> is the
  state the execution step starts from.
\<close>

definition before_execute :: "sim \<Rightarrow> sim" where
  "before_execute s =
     update_wait_times (schedule_process (try_load_suspended (arrive_new_processes
       (s\<lparr>new_process_arrived := False, process_finished := False\<rparr>))))"

definition tick :: "sim \<Rightarrow> sim" where
  "tick s = (let s1 = sim_execute_tick (before_execute s) in s1\<lparr>clock := clock s1 + 1\<rparr>)"

section \<open>Example configurations\<close>

text \<open>
  Three partitions of 100K, 60K and 60K and two processes of 40K and 90K that both
  arrive at time 0, under the default degree of multiprogramming.
\<close>

definition ex_mem :: sim where
  "ex_mem = initial [(1, 40, 0, 3), (2, 90, 0, 2)] [(1, 100, 0), (2, 60, 100), (3, 60, 160)] 5"

lemmas model_defs =
  initial_def new_Process_def new_Partition_def upd_proc_def upd_part_def is_free_def
  assign_process_def free_def find_best_fit_def allocate_process_def free_process_def
  select_next_process_def should_preempt_def start_execution_def execute_tick_def
  preempt_current_def current_dom_def suspend_def try_load_to_memory_def
  arrive_new_processes_def try_load_suspended_def update_wait_times_def
  preempt_phase_def select_phase_def schedule_process_def calculate_statistics_def
  sim_execute_tick_def before_execute_def tick_def Let_def upt_conv_Cons

section \<open>Best fit\<close>

text \<open>
  A partition fits a process when it is free and large enough; \<open>leftover\<close> is the
  space the process would leave unused in it.
\<close>

definition fits :: "sim \<Rightarrow> nat \<Rightarrow> nat \<Rightarrow> bool" where
  "fits s p i \<longleftrightarrow> is_free (parts s i) \<and> part_size (parts s i) \<ge> proc_size (procs s p)"

definition leftover :: "sim \<Rightarrow> nat \<Rightarrow> nat \<Rightarrow> int" where
  "leftover s p i = part_size (parts s i) - proc_size (procs s p)"

lemma find_best_fit_loop_Cons:
  "find_best_fit_loop s p (i # rest) best minf =
     (if fits s p i \<and> (case minf of None \<Rightarrow> True | Some m \<Rightarrow> leftover s p i < m)
      then find_best_fit_loop s p rest (Some i) (Some (leftover s p i))
      else find_best_fit_loop s p rest best minf)"
  by (cases minf) (auto simp: fits_def leftover_def Let_def)

lemma find_best_fit_loop_None:
  "(best = None \<longrightarrow> minf = None) \<Longrightarrow>
   find_best_fit_loop s p xs best minf = None \<longleftrightarrow> best = None \<and> (\<forall>i \<in> set xs. \<not> fits s p i)"
  by (induction xs arbitrary: best minf) (auto simp: fits_def Let_def)

text \<open>
  The loop invariant. The accumulators agree (\<open>min_fragmentation\<close> is the leftover of
  \<open>best_partition\<close>); the result is either the candidate the loop started with, which
  nothing in the rest of the list beats, or an element of the rest that beats the
  candidate, is no worse than anything in the rest and strictly better than
  everything before it.
\<close>

lemma find_best_fit_loop_Some:
  "(case best of None \<Rightarrow> minf = None | Some b \<Rightarrow> minf = Some (leftover s p b)) \<Longrightarrow>
   find_best_fit_loop s p xs best minf = Some r \<Longrightarrow>
   (best = Some r \<and> (\<forall>j \<in> set xs. fits s p j \<longrightarrow> leftover s p r \<le> leftover s p j)) \<or>
   (\<exists>k < length xs. xs ! k = r \<and> fits s p r
       \<and> (\<forall>b. best = Some b \<longrightarrow> leftover s p r < leftover s p b)
       \<and> (\<forall>j \<in> set xs. fits s p j \<longrightarrow> leftover s p r \<le> leftover s p j)
       \<and> (\<forall>j < k. fits s p (xs ! j) \<longrightarrow> leftover s p r < leftover s p (xs ! j)))"
proof (induction xs arbitrary: best minf)
  case Nil
  then show ?case by simp
next
  case (Cons i rest)
  let ?take = "fits s p i \<and> (case minf of None \<Rightarrow> True | Some m \<Rightarrow> leftover s p i < m)"
  show ?case
  proof (cases ?take)
    case True
    then have run: "find_best_fit_loop s p rest (Some i) (Some (leftover s p i)) = Some r"
      using True Cons.prems(2) by (simp add: find_best_fit_loop_Cons del: find_best_fit_loop.simps)
    have below: "\<forall>b. best = Some b \<longrightarrow> leftover s p i < leftover s p b"
      using True Cons.prems(1) by (auto split: option.splits)
    from Cons.IH [OF _ run]
    consider (kept) "i = r" "\<forall>j \<in> set rest. fits s p j \<longrightarrow> leftover s p r \<le> leftover s p j"
      | (later) k where "k < length rest" "rest ! k = r" "fits s p r"
          "leftover s p r < leftover s p i"
          "\<forall>j \<in> set rest. fits s p j \<longrightarrow> leftover s p r \<le> leftover s p j"
          "\<forall>j < k. fits s p (rest ! j) \<longrightarrow> leftover s p r < leftover s p (rest ! j)"
      by auto
    then show ?thesis
    proof cases
      case kept
      with True below have "0 < length (i # rest) \<and> (i # rest) ! 0 = r \<and> fits s p r
          \<and> (\<forall>b. best = Some b \<longrightarrow> leftover s p r < leftover s p b)
          \<and> (\<forall>j \<in> set (i # rest). fits s p j \<longrightarrow> leftover s p r \<le> leftover s p j)
          \<and> (\<forall>j < (0::nat). fits s p ((i # rest) ! j) \<longrightarrow> leftover s p r < leftover s p ((i # rest) ! j))"
        by auto
      then show ?thesis by blast
    next
      case later
      with below have "Suc k < length (i # rest) \<and> (i # rest) ! Suc k = r \<and> fits s p r
          \<and> (\<forall>b. best = Some b \<longrightarrow> leftover s p r < leftover s p b)
          \<and> (\<forall>j \<in> set (i # rest). fits s p j \<longrightarrow> leftover s p r \<le> leftover s p j)
          \<and> (\<forall>j < Suc k. fits s p ((i # rest) ! j) \<longrightarrow> leftover s p r < leftover s p ((i # rest) ! j))"
        by (auto simp: less_Suc_eq_0_disj)
      then show ?thesis by blast
    qed
  next
    case False
    then have run: "find_best_fit_loop s p rest best minf = Some r"
      using False Cons.prems(2)
      by (auto simp: find_best_fit_loop_Cons simp del: find_best_fit_loop.simps split: if_splits)
    have skip: "\<forall>b. best = Some b \<longrightarrow> fits s p i \<longrightarrow> leftover s p b \<le> leftover s p i"
      using False Cons.prems(1) by (auto split: option.splits)
    have none: "best = None \<longrightarrow> \<not> fits s p i"
      using False Cons.prems(1) by (auto split: option.splits)
    from Cons.IH [OF Cons.prems(1) run]
    consider (kept) "best = Some r" "\<forall>j \<in> set rest. fits s p j \<longrightarrow> leftover s p r \<le> leftover s p j"
      | (later) k where "k < length rest" "rest ! k = r" "fits s p r"
          "\<forall>b. best = Some b \<longrightarrow> leftover s p r < leftover s p b"
          "\<forall>j \<in> set rest. fits s p j \<longrightarrow> leftover s p r \<le> leftover s p j"
          "\<forall>j < k. fits s p (rest ! j) \<longrightarrow> leftover s p r < leftover s p (rest ! j)"
      by auto
    then show ?thesis
    proof cases
      case kept
      with skip show ?thesis by auto
    next
      case later
      with skip none have "Suc k < length (i # rest) \<and> (i # rest) ! Suc k = r \<and> fits s p r
          \<and> (\<forall>b. best = Some b \<longrightarrow> leftover s p r < leftover s p b)
          \<and> (\<forall>j \<in> set (i # rest). fits s p j \<longrightarrow> leftover s p r \<le> leftover s p j)
          \<and> (\<forall>j < Suc k. fits s p ((i # rest) ! j) \<longrightarrow> leftover s p r < leftover s p ((i # rest) ! j))"
        by (cases best) (auto simp: less_Suc_eq_0_disj)
      then show ?thesis by blast
    qed
  qed
qed

lemma find_best_fit_Some_fits:
  assumes "find_best_fit s p = Some i"
  shows "i \<in> set (partitions s)" and "fits s p i"
proof -
  from assms have "find_best_fit_loop s p (partitions s) None None = Some i"
    by (simp add: find_best_fit_def)
  from find_best_fit_loop_Some [OF _ this]
  show "i \<in> set (partitions s)" and "fits s p i" by auto
qed

lemma find_best_fit_None_iff:
  "find_best_fit s p = None \<longleftrightarrow> (\<forall>i \<in> set (partitions s). \<not> fits s p i)"
  by (simp add: find_best_fit_def find_best_fit_loop_None)

text \<open>
  C5. \<^verbatim>\<open>find_best_fit\<close> returns none exactly when no partition of the list is free and
  large enough. Otherwise it returns the partition at some position \<open>k\<close> of the list
  that is free and large enough, whose leftover \<open>size - p.size\<close> is minimal among the
  free and large enough partitions, and strictly smaller than that of every such
  partition before position \<open>k\<close>: the first minimiser in list order.
\<close>

theorem find_best_fit_first_minimal:
  "(find_best_fit s p = None \<longleftrightarrow> (\<forall>i \<in> set (partitions s). \<not> fits s p i)) \<and>
   (\<forall>r. find_best_fit s p = Some r \<longrightarrow>
      (\<exists>k < length (partitions s). partitions s ! k = r \<and> fits s p r
         \<and> (\<forall>j \<in> set (partitions s). fits s p j \<longrightarrow> leftover s p r \<le> leftover s p j)
         \<and> (\<forall>j < k. fits s p (partitions s ! j) \<longrightarrow>
                leftover s p r < leftover s p (partitions s ! j))))"
proof (intro conjI allI impI)
  show "find_best_fit s p = None \<longleftrightarrow> (\<forall>i \<in> set (partitions s). \<not> fits s p i)"
    by (rule find_best_fit_None_iff)
next
  fix r
  assume "find_best_fit s p = Some r"
  then have "find_best_fit_loop s p (partitions s) None None = Some r"
    by (simp add: find_best_fit_def)
  from find_best_fit_loop_Some [OF _ this]
  show "\<exists>k < length (partitions s). partitions s ! k = r \<and> fits s p r
         \<and> (\<forall>j \<in> set (partitions s). fits s p j \<longrightarrow> leftover s p r \<le> leftover s p j)
         \<and> (\<forall>j < k. fits s p (partitions s ! j) \<longrightarrow>
                leftover s p r < leftover s p (partitions s ! j))"
    by auto
qed

text \<open>
  The 40K process of the example: all three partitions are free and large enough, the
  two of 60K tie on the leftover 20K, and the first of them (reference 1) is returned.
\<close>

theorem find_best_fit_first_minimal_witness:
  "find_best_fit ex_mem 0 = Some 1 \<and> fits ex_mem 0 0 \<and> fits ex_mem 0 2
   \<and> leftover ex_mem 0 1 = 20 \<and> leftover ex_mem 0 2 = 20 \<and> leftover ex_mem 0 0 = 60
   \<and> (\<exists>k < length (partitions ex_mem). partitions ex_mem ! k = 1 \<and> fits ex_mem 0 1
         \<and> (\<forall>j \<in> set (partitions ex_mem). fits ex_mem 0 j \<longrightarrow> leftover ex_mem 0 1 \<le> leftover ex_mem 0 j)
         \<and> (\<forall>j < k. fits ex_mem 0 (partitions ex_mem ! j) \<longrightarrow>
                leftover ex_mem 0 1 < leftover ex_mem 0 (partitions ex_mem ! j)))"
proof -
  have found: "find_best_fit ex_mem 0 = Some 1"
    by (simp add: ex_mem_def model_defs)
  have vals: "fits ex_mem 0 0 \<and> fits ex_mem 0 2 \<and> leftover ex_mem 0 1 = 20
      \<and> leftover ex_mem 0 2 = 20 \<and> leftover ex_mem 0 0 = 60"
    by (simp add: ex_mem_def fits_def leftover_def model_defs)
  from find_best_fit_first_minimal [of ex_mem 0] found vals show ?thesis
    by blast
qed

section \<open>Allocation\<close>

text \<open>
  What a successful allocation writes: partition \<open>i\<close> records \<open>p\<close> and its leftover,
  \<open>p\<close> records \<open>i\<close> and becomes Ready.
\<close>

definition place :: "sim \<Rightarrow> nat \<Rightarrow> nat \<Rightarrow> sim" where
  "place s i p =
     s\<lparr>parts := (parts s)(i := (parts s i)\<lparr>process := Some p,
          internal_fragmentation := part_size (parts s i) - proc_size (procs s p)\<rparr>),
       procs := (procs s)(p := (procs s p)\<lparr>partition := Some i, state := Ready\<rparr>)\<rparr>"

text \<open>
  The partition \<^verbatim>\<open>find_best_fit\<close> returns is free and large enough, so in
  \<^verbatim>\<open>allocate_process\<close> the branch for an occupied partition is never taken and
  \<^verbatim>\<open>assign_process\<close> never refuses.
\<close>

lemma allocate_process_eq:
  "allocate_process s p =
     (case find_best_fit s p of None \<Rightarrow> (s, False) | Some i \<Rightarrow> (place s i p, True))"
proof (cases "find_best_fit s p")
  case None
  then show ?thesis by (simp add: allocate_process_def)
next
  case (Some i)
  from find_best_fit_Some_fits(2) [OF Some]
  have "is_free (parts s i)" and "proc_size (procs s p) \<le> part_size (parts s i)"
    by (simp_all add: fits_def)
  with Some show ?thesis
    by (simp add: allocate_process_def assign_process_def place_def upd_proc_def upd_part_def Let_def)
qed

text \<open>
  \<open>ex_occ\<close>: one partition of 100K, taken by the 60K process 0, and a 50K process 1
  outside. \<open>ex_placed\<close>: the three-partition example after its 40K process 0 has been
  allocated (into partition 1, the first of 60K).
\<close>

definition ex_occ :: sim where
  "ex_occ = fst (allocate_process (initial [(1, 60, 0, 3), (2, 50, 0, 2)] [(1, 100, 0)] 5) 0)"

definition ex_placed :: sim where
  "ex_placed = fst (allocate_process ex_mem 0)"

text \<open>
  C1, as the code has it. \<^verbatim>\<open>allocate_process\<close> never evicts: the partition it finds is
  always free. It returns false, leaving every object as it was, exactly when no
  partition is both free and large enough. Otherwise it records \<open>p\<close> and the leftover
  in the best-fit free partition, sets \<open>p\<close>'s partition reference and \<open>p.state = Ready\<close>,
  changes no other process and no other partition, and returns true.
\<close>

theorem allocate_process_free_best_fit:
  "(\<not> snd (allocate_process s p) \<longleftrightarrow> (\<forall>i \<in> set (partitions s). \<not> fits s p i))
   \<and> (\<not> snd (allocate_process s p) \<longrightarrow> fst (allocate_process s p) = s)
   \<and> (\<forall>i. find_best_fit s p = Some i \<longrightarrow>
         is_free (parts s i)
       \<and> snd (allocate_process s p)
       \<and> process (parts (fst (allocate_process s p)) i) = Some p
       \<and> internal_fragmentation (parts (fst (allocate_process s p)) i) = leftover s p i
       \<and> partition (procs (fst (allocate_process s p)) p) = Some i
       \<and> state (procs (fst (allocate_process s p)) p) = Ready
       \<and> (\<forall>q. q \<noteq> p \<longrightarrow> procs (fst (allocate_process s p)) q = procs s q)
       \<and> (\<forall>j. j \<noteq> i \<longrightarrow> parts (fst (allocate_process s p)) j = parts s j))"
proof (intro conjI allI impI)
  show "\<not> snd (allocate_process s p) \<longleftrightarrow> (\<forall>i \<in> set (partitions s). \<not> fits s p i)"
    using find_best_fit_None_iff [of s p]
    by (cases "find_best_fit s p") (simp_all add: allocate_process_eq)
next
  assume "\<not> snd (allocate_process s p)"
  then show "fst (allocate_process s p) = s"
    by (cases "find_best_fit s p") (simp_all add: allocate_process_eq)
next
  fix i
  assume found: "find_best_fit s p = Some i"
  from find_best_fit_Some_fits(2) [OF found] show "is_free (parts s i)"
    by (simp add: fits_def)
  from found show "snd (allocate_process s p)"
    by (simp add: allocate_process_eq)
  from found show "process (parts (fst (allocate_process s p)) i) = Some p"
    by (simp add: allocate_process_eq place_def)
  from found show "internal_fragmentation (parts (fst (allocate_process s p)) i) = leftover s p i"
    by (simp add: allocate_process_eq place_def leftover_def)
  from found show "partition (procs (fst (allocate_process s p)) p) = Some i"
    by (simp add: allocate_process_eq place_def)
  from found show "state (procs (fst (allocate_process s p)) p) = Ready"
    by (simp add: allocate_process_eq place_def)
next
  fix i q
  assume "find_best_fit s p = Some i" and "q \<noteq> p"
  then show "procs (fst (allocate_process s p)) q = procs s q"
    by (simp add: allocate_process_eq place_def)
next
  fix i j
  assume "find_best_fit s p = Some i" and "j \<noteq> i"
  then show "parts (fst (allocate_process s p)) j = parts s j"
    by (simp add: allocate_process_eq place_def)
qed

text \<open>
  Both outcomes on concrete states: the 40K process goes into the free partition 1 of
  the three-partition example; the 50K process of \<open>ex_occ\<close> is refused.
\<close>

theorem allocate_process_free_best_fit_witness:
  "find_best_fit ex_mem 0 = Some 1
   \<and> is_free (parts ex_mem 1)
   \<and> snd (allocate_process ex_mem 0)
   \<and> process (parts (fst (allocate_process ex_mem 0)) 1) = Some 0
   \<and> partition (procs (fst (allocate_process ex_mem 0)) 0) = Some 1
   \<and> state (procs (fst (allocate_process ex_mem 0)) 0) = Ready
   \<and> procs (fst (allocate_process ex_mem 0)) 1 = procs ex_mem 1
   \<and> parts (fst (allocate_process ex_mem 0)) 0 = parts ex_mem 0
   \<and> \<not> snd (allocate_process ex_occ 1)
   \<and> \<not> fits ex_occ 1 0
   \<and> fst (allocate_process ex_occ 1) = ex_occ"
proof -
  have found: "find_best_fit ex_mem 0 = Some 1"
    by (simp add: ex_mem_def model_defs)
  have refused: "\<not> snd (allocate_process ex_occ 1)" and parts: "partitions ex_occ = [0]"
    by (simp_all add: ex_occ_def model_defs)
  from allocate_process_free_best_fit [of ex_mem 0] found
    allocate_process_free_best_fit [of ex_occ 1] refused parts
  show ?thesis by simp
qed

text \<open>
  C1 as stated fails. In \<open>ex_occ\<close> the only partition is large enough for process 1
  and is occupied by the different process 0. The claim has the occupant evicted and
  the call return true; the call returns false and changes nothing, so process 0
  keeps the partition and is not Suspended.
\<close>

theorem allocate_process_eviction_counterexample:
  "partitions ex_occ = [0]
   \<and> proc_size (procs ex_occ 1) \<le> part_size (parts ex_occ 0)
   \<and> process (parts ex_occ 0) = Some 0
   \<and> find_best_fit ex_occ 1 = None
   \<and> allocate_process ex_occ 1 = (ex_occ, False)
   \<and> state (procs (fst (allocate_process ex_occ 1)) 0) = Ready
   \<and> partition (procs (fst (allocate_process ex_occ 1)) 0) = Some 0"
  by (simp add: ex_occ_def model_defs)

text \<open>
  C9, as the code has it. For a process \<open>p\<close> that already occupies a partition,
  \<^verbatim>\<open>allocate_process(p)\<close> is rejected exactly when no partition is free and large
  enough for \<open>p\<close>; a rejected call leaves every object unchanged, so \<open>p\<close> still
  occupies its original partition.
\<close>

theorem allocate_process_placed_rejected:
  "partition (procs s p) = Some i \<Longrightarrow>
     (\<not> snd (allocate_process s p) \<longleftrightarrow> (\<forall>j \<in> set (partitions s). \<not> fits s p j))
   \<and> (\<not> snd (allocate_process s p) \<longrightarrow>
         fst (allocate_process s p) = s
       \<and> partition (procs (fst (allocate_process s p)) p) = Some i)"
  using find_best_fit_None_iff [of s p]
  by (cases "find_best_fit s p") (simp_all add: allocate_process_eq)

theorem allocate_process_placed_rejected_witness:
  "partition (procs ex_occ 0) = Some 0
   \<and> \<not> fits ex_occ 0 0
   \<and> \<not> snd (allocate_process ex_occ 0)
   \<and> fst (allocate_process ex_occ 0) = ex_occ
   \<and> partition (procs (fst (allocate_process ex_occ 0)) 0) = Some 0"
proof -
  have placed: "partition (procs ex_occ 0) = Some 0" and parts: "partitions ex_occ = [0]"
    and full: "\<not> fits ex_occ 0 0"
    by (simp_all add: ex_occ_def fits_def model_defs)
  from allocate_process_placed_rejected [OF placed] parts full
  show ?thesis using placed by simp
qed

text \<open>
  C9 as stated fails. In \<open>ex_placed\<close> process 0 occupies partition 1; a second call is
  not rejected: it returns true and assigns the process to partition 2 as well, while
  partition 1 still records it.
\<close>

theorem allocate_process_twice_counterexample:
  "partition (procs ex_placed 0) = Some 1
   \<and> process (parts ex_placed 1) = Some 0
   \<and> snd (allocate_process ex_placed 0)
   \<and> partition (procs (fst (allocate_process ex_placed 0)) 0) = Some 2
   \<and> process (parts (fst (allocate_process ex_placed 0)) 1) = Some 0
   \<and> process (parts (fst (allocate_process ex_placed 0)) 2) = Some 0"
  by (simp add: ex_placed_def ex_mem_def model_defs)

section \<open>The engine invariant\<close>

text \<open>
  What every pass of the loop keeps true. The four queues and the current process
  hold pairwise different processes, none twice. The two directions of the
  process/partition reference agree. A process holds a partition exactly when it is
  in the ready queue or executing. A process is in state Executing exactly when it is
  the current one and in state Terminated exactly when it is in the terminated queue;
  the suspended are Suspended and the ready are Ready. The current process has its
  first execution time set.
\<close>

definition running :: "sim \<Rightarrow> nat list" where
  "running s = (case current_process s of None \<Rightarrow> [] | Some c \<Rightarrow> [c])"

definition inv_core :: "sim \<Rightarrow> bool" where
  "inv_core s \<longleftrightarrow>
     distinct (all_processes s @ ready_queue s @ suspended_queue s @ terminated_queue s @ running s)
   \<and> (\<forall>p i. partition (procs s p) = Some i \<longleftrightarrow> process (parts s i) = Some p)
   \<and> (\<forall>p. partition (procs s p) \<noteq> None \<longleftrightarrow> p \<in> set (ready_queue s) \<or> current_process s = Some p)
   \<and> (\<forall>p. state (procs s p) = Executing \<longleftrightarrow> current_process s = Some p)
   \<and> (\<forall>p \<in> set (suspended_queue s). state (procs s p) = Suspended)
   \<and> (\<forall>p \<in> set (ready_queue s). state (procs s p) = Ready)
   \<and> (\<forall>p. state (procs s p) = Terminated \<longleftrightarrow> p \<in> set (terminated_queue s))
   \<and> (\<forall>c. current_process s = Some c \<longrightarrow> first_execution_time (procs s c) \<noteq> None)"

subsection \<open>Admission\<close>

lemma try_load_to_memory_eq:
  "try_load_to_memory s p =
     (if current_dom s \<ge> degree_of_multiprogramming s then suspend s p
      else case find_best_fit s p of
        None \<Rightarrow> suspend s p
      | Some i \<Rightarrow>
          (place s i p)\<lparr>ready_queue := (if p \<in> set (ready_queue s) then ready_queue s else ready_queue s @ [p]),
             suspended_queue := (if p \<in> set (suspended_queue s) then remove1 p (suspended_queue s) else suspended_queue s)\<rparr>)"
  by (auto simp: try_load_to_memory_def allocate_process_eq place_def Let_def split: option.splits)

text \<open>
  An arriving process has left \<^verbatim>\<open>all_processes\<close> and is in no queue while it is
  loaded. For the invariant it is counted as still being at the head of
  \<^verbatim>\<open>all_processes\<close>, which \<^verbatim>\<open>_try_load_to_memory\<close> neither reads nor writes.
\<close>

lemma admit_pending_inv:
  assumes "inv_core (s\<lparr>all_processes := p # ps\<rparr>)"
  shows "inv_core ((try_load_to_memory s p)\<lparr>all_processes := ps\<rparr>)"
proof (cases "current_dom s \<ge> degree_of_multiprogramming s \<or> find_best_fit s p = None")
  case True
  then have "try_load_to_memory s p = suspend s p"
    by (auto simp: try_load_to_memory_eq)
  with assms show ?thesis
    by (auto simp: inv_core_def suspend_def upd_proc_def running_def Let_def split: option.splits)
next
  case False
  then obtain i where i: "find_best_fit s p = Some i" by auto
  from find_best_fit_Some_fits(2) [OF i] have free: "process (parts s i) = None"
    by (simp add: fits_def is_free_def)
  from False i have "try_load_to_memory s p = (place s i p)\<lparr>ready_queue := (if p \<in> set (ready_queue s) then ready_queue s else ready_queue s @ [p]),
             suspended_queue := (if p \<in> set (suspended_queue s) then remove1 p (suspended_queue s) else suspended_queue s)\<rparr>"
    by (simp add: try_load_to_memory_eq)
  with assms free show ?thesis
    apply (simp add: inv_core_def place_def running_def)
    apply (intro conjI)
          apply (auto split: option.splits)
    done
qed


lemma same_all_processes: "all_processes t = r \<Longrightarrow> t\<lparr>all_processes := r\<rparr> = t"
  by auto

lemma admit_suspended_inv:
  assumes "inv_core s" and "p \<in> set (suspended_queue s)"
  shows "inv_core (try_load_to_memory s p)"
proof (cases "current_dom s \<ge> degree_of_multiprogramming s \<or> find_best_fit s p = None")
  case True
  then have "try_load_to_memory s p = suspend s p"
    by (auto simp: try_load_to_memory_eq)
  with assms show ?thesis
    by (auto simp: inv_core_def suspend_def upd_proc_def running_def Let_def split: option.splits)
next
  case False
  then obtain i where i: "find_best_fit s p = Some i" by auto
  from find_best_fit_Some_fits(2) [OF i] have free: "process (parts s i) = None"
    by (simp add: fits_def is_free_def)
  from False i have "try_load_to_memory s p = (place s i p)\<lparr>ready_queue := (if p \<in> set (ready_queue s) then ready_queue s else ready_queue s @ [p]),
             suspended_queue := (if p \<in> set (suspended_queue s) then remove1 p (suspended_queue s) else suspended_queue s)\<rparr>"
    by (simp add: try_load_to_memory_eq)
  with assms free show ?thesis
    apply (simp add: inv_core_def place_def running_def)
    apply (intro conjI)
          apply (auto split: option.splits)
    done
qed

lemma try_load_to_memory_frame:
  "all_processes (try_load_to_memory s p) = all_processes s"
  "terminated_queue (try_load_to_memory s p) = terminated_queue s"
  "current_process (try_load_to_memory s p) = current_process s"
  "clock (try_load_to_memory s p) = clock s"
  "degree_of_multiprogramming (try_load_to_memory s p) = degree_of_multiprogramming s"
  "loaded_processes (try_load_to_memory s p) = loaded_processes s"
  "partitions (try_load_to_memory s p) = partitions s"
  by (simp_all add: try_load_to_memory_eq suspend_def place_def upd_proc_def Let_def split: option.splits)

lemma load_each_frame:
  "all_processes (load_each s ps) = all_processes s"
  "terminated_queue (load_each s ps) = terminated_queue s"
  "current_process (load_each s ps) = current_process s"
  "clock (load_each s ps) = clock s"
  "degree_of_multiprogramming (load_each s ps) = degree_of_multiprogramming s"
  "loaded_processes (load_each s ps) = loaded_processes s"
  "partitions (load_each s ps) = partitions s"
  by (induction ps arbitrary: s; simp add: try_load_to_memory_frame)+

lemma load_each_inv:
  "inv_core (s\<lparr>all_processes := ps @ rest\<rparr>) \<Longrightarrow> inv_core ((load_each s ps)\<lparr>all_processes := rest\<rparr>)"
proof (induction ps arbitrary: s)
  case Nil
  then show ?case by simp
next
  case (Cons p ps)
  from Cons.prems have "inv_core (s\<lparr>all_processes := p # (ps @ rest)\<rparr>)" by simp
  then have "inv_core ((try_load_to_memory s p)\<lparr>all_processes := ps @ rest\<rparr>)"
    by (rule admit_pending_inv)
  then show ?case using Cons.IH by simp
qed

lemma arrive_scan_inv:
  "arrive_scan s ps a r = (s1, a1, r1) \<Longrightarrow> inv_core (s\<lparr>all_processes := a @ r @ ps\<rparr>)
     \<Longrightarrow> inv_core (s1\<lparr>all_processes := a1 @ r1\<rparr>)"
proof (induction ps arbitrary: s a r)
  case Nil
  then show ?case by simp
next
  case (Cons p ps)
  show ?case
  proof (cases "arrival_time (procs s p) = clock s")
    case True
    let ?s = "upd_proc s p (\<lambda>pr. pr\<lparr>state := New\<rparr>)\<lparr>new_process_arrived := True\<rparr>"
    from True Cons.prems(1) have run: "arrive_scan ?s ps (a @ [p]) r = (s1, a1, r1)" by simp
    from Cons.prems(2) have "inv_core (?s\<lparr>all_processes := (a @ [p]) @ r @ ps\<rparr>)"
      by (auto simp: inv_core_def upd_proc_def running_def split: option.splits)
    with run show ?thesis by (rule Cons.IH)
  next
    case False
    show ?thesis
    proof (cases "arrival_time (procs s p) > clock s")
      case True
      with False Cons.prems(1) have run: "arrive_scan s ps a (r @ [p]) = (s1, a1, r1)" by simp
      from Cons.prems(2) have "inv_core (s\<lparr>all_processes := a @ (r @ [p]) @ ps\<rparr>)"
        by (auto simp: inv_core_def running_def split: option.splits)
      with run show ?thesis by (rule Cons.IH)
    next
      case late: False
      with False Cons.prems(1) have run: "arrive_scan s ps a r = (s1, a1, r1)" by simp
      from Cons.prems(2) have "inv_core (s\<lparr>all_processes := a @ r @ ps\<rparr>)"
        by (auto simp: inv_core_def running_def split: option.splits)
      with run show ?thesis by (rule Cons.IH)
    qed
  qed
qed

lemma arrive_new_processes_inv:
  assumes "inv_core s"
  shows "inv_core (arrive_new_processes s)"
proof -
  obtain s1 a1 r1 where scan: "arrive_scan s (all_processes s) [] [] = (s1, a1, r1)"
    by (cases "arrive_scan s (all_processes s) [] []") auto
  from assms have "inv_core (s\<lparr>all_processes := [] @ [] @ all_processes s\<rparr>)" by simp
  with scan have "inv_core (s1\<lparr>all_processes := a1 @ r1\<rparr>)" by (rule arrive_scan_inv)
  then have "inv_core ((s1\<lparr>all_processes := r1\<rparr>)\<lparr>all_processes := a1 @ r1\<rparr>)" by simp
  then have "inv_core ((load_each (s1\<lparr>all_processes := r1\<rparr>) a1)\<lparr>all_processes := r1\<rparr>)"
    by (rule load_each_inv)
  moreover have "(load_each (s1\<lparr>all_processes := r1\<rparr>) a1)\<lparr>all_processes := r1\<rparr>
      = load_each (s1\<lparr>all_processes := r1\<rparr>) a1"
    by (rule same_all_processes) (simp add: load_each_frame)
  ultimately show ?thesis using scan by (simp add: arrive_new_processes_def)
qed

subsection \<open>Re-admission of suspended processes\<close>

text \<open>
  The admission rule applied to the suspended processes in queue order, the resident
  count taken anew before each one, until the degree of multiprogramming is reached.
\<close>

fun readmit :: "sim \<Rightarrow> nat list \<Rightarrow> sim" where
  "readmit s [] = s"
| "readmit s (p # ps) =
     (if current_dom s \<ge> degree_of_multiprogramming s then s
      else readmit (try_load_to_memory s p) ps)"

lemma suspended_queue_try_load:
  "set (suspended_queue (try_load_to_memory s p)) \<supseteq> set (suspended_queue s) - {p}"
  by (auto simp: try_load_to_memory_eq suspend_def place_def upd_proc_def Let_def
      split: option.splits dest: in_set_remove1 [rotated])

lemma readmit_inv:
  "inv_core s \<Longrightarrow> distinct ps \<Longrightarrow> set ps \<subseteq> set (suspended_queue s) \<Longrightarrow> inv_core (readmit s ps)"
proof (induction ps arbitrary: s)
  case Nil
  then show ?case by simp
next
  case (Cons p ps)
  show ?case
  proof (cases "current_dom s \<ge> degree_of_multiprogramming s")
    case True
    with Cons.prems show ?thesis by simp
  next
    case False
    from Cons.prems have "inv_core (try_load_to_memory s p)"
      by (intro admit_suspended_inv) auto
    moreover from Cons.prems have "distinct ps" by simp
    moreover from Cons.prems suspended_queue_try_load [of s p]
    have "set ps \<subseteq> set (suspended_queue (try_load_to_memory s p))" by auto
    ultimately have "inv_core (readmit (try_load_to_memory s p) ps)" by (rule Cons.IH)
    with False show ?thesis by simp
  qed
qed

lemma remove1_filter: "distinct q \<Longrightarrow> remove1 t q = filter (\<lambda>x. x \<noteq> t) q"
  by (simp add: distinct_remove1_removeAll removeAll_filter_not_eq) (rule filter_cong, auto)

lemma remove_each_filter:
  "distinct q \<Longrightarrow> remove_each q ts = filter (\<lambda>x. x \<notin> set ts) q"
proof (induction ts arbitrary: q)
  case Nil
  then show ?case by simp
next
  case (Cons t ts)
  from Cons.prems have "remove_each (remove1 t q) ts = filter (\<lambda>x. x \<notin> set ts) (remove1 t q)"
    by (intro Cons.IH) simp
  with Cons.prems show ?case
    by (simp add: remove1_filter)
qed

lemma find_best_fit_loop_suspended [simp]:
  "find_best_fit_loop (s\<lparr>suspended_queue := q\<rparr>) p xs b m = find_best_fit_loop s p xs b m"
  by (induction xs arbitrary: b m) (simp_all add: Let_def)

lemma find_best_fit_suspended [simp]:
  "find_best_fit (s\<lparr>suspended_queue := q\<rparr>) p = find_best_fit s p"
  by (simp add: find_best_fit_def)

lemma same_state: "state pr = x \<Longrightarrow> pr\<lparr>state := x\<rparr> = pr"
  by auto

lemma suspend_idle:
  "state (procs s p) = Suspended \<Longrightarrow> p \<in> set (suspended_queue s) \<Longrightarrow> suspend s p = s"
  by (simp add: suspend_def upd_proc_def Let_def same_state)

text \<open>The loop against the rule applied process by process.\<close>

lemma load_suspended_loop_readmit:
  "d = current_dom s \<Longrightarrow> distinct q \<Longrightarrow> distinct ps \<Longrightarrow> set ps \<subseteq> set q
   \<Longrightarrow> set ps \<inter> set (ready_queue s) = {} \<Longrightarrow> (\<forall>p \<in> set ps. state (procs s p) = Suspended)
   \<Longrightarrow> \<exists>tr2. snd (load_suspended_loop s ps d tr) = tr @ tr2
         \<and> readmit (s\<lparr>suspended_queue := q\<rparr>) ps
           = (fst (load_suspended_loop s ps d tr))\<lparr>suspended_queue := filter (\<lambda>x. x \<notin> set tr2) q\<rparr>"
proof (induction ps arbitrary: s d tr q)
  case Nil
  have "snd (load_suspended_loop s [] d tr) = tr @ []
      \<and> readmit (s\<lparr>suspended_queue := q\<rparr>) []
        = (fst (load_suspended_loop s [] d tr))\<lparr>suspended_queue := filter (\<lambda>x. x \<notin> set []) q\<rparr>"
    by simp
  then show ?case by blast
next
  case (Cons p ps)
  let ?v = "s\<lparr>suspended_queue := q\<rparr>"
  have dom: "current_dom ?v = d" "degree_of_multiprogramming ?v = degree_of_multiprogramming s"
    using Cons.prems(1) by (simp_all add: current_dom_def)
  show ?case
  proof (cases "d \<ge> degree_of_multiprogramming s")
    case True
    then have "load_suspended_loop s (p # ps) d tr = (s, tr)" by simp
    moreover from True dom have "readmit ?v (p # ps) = ?v" by simp
    ultimately have "snd (load_suspended_loop s (p # ps) d tr) = tr @ []
         \<and> readmit ?v (p # ps)
           = (fst (load_suspended_loop s (p # ps) d tr))\<lparr>suspended_queue := filter (\<lambda>x. x \<notin> set []) q\<rparr>"
      by simp
    then show ?thesis by blast
  next
    case False
    with dom have r: "readmit ?v (p # ps) = readmit (try_load_to_memory ?v p) ps" by simp
    show ?thesis
    proof (cases "find_best_fit s p")
      case None
      from Cons.prems have idle: "suspend ?v p = ?v"
        by (intro suspend_idle) auto
      have loop: "load_suspended_loop s (p # ps) d tr = load_suspended_loop s ps d tr"
        using None False by (simp add: allocate_process_eq)
      have step: "try_load_to_memory ?v p = ?v"
        using None idle by (simp add: try_load_to_memory_eq)
      from Cons.prems have "\<exists>tr2. snd (load_suspended_loop s ps d tr) = tr @ tr2
         \<and> readmit ?v ps
           = (fst (load_suspended_loop s ps d tr))\<lparr>suspended_queue := filter (\<lambda>x. x \<notin> set tr2) q\<rparr>"
        by (intro Cons.IH) auto
      then show ?thesis by (simp only: loop r step)
    next
      case (Some i)
      let ?s2 = "(place s i p)\<lparr>ready_queue := ready_queue s @ [p]\<rparr>"
      from Cons.prems have notin: "p \<notin> set (ready_queue s)" and inq: "p \<in> set q" by auto
      from Cons.prems have "\<exists>tr2. snd (load_suspended_loop ?s2 ps (d + 1) (tr @ [p])) = (tr @ [p]) @ tr2
         \<and> readmit (?s2\<lparr>suspended_queue := remove1 p q\<rparr>) ps
           = (fst (load_suspended_loop ?s2 ps (d + 1) (tr @ [p])))\<lparr>suspended_queue :=
                filter (\<lambda>x. x \<notin> set tr2) (remove1 p q)\<rparr>"
        by (intro Cons.IH) (auto simp: current_dom_def place_def)
      then obtain tr2 where
        a: "snd (load_suspended_loop ?s2 ps (d + 1) (tr @ [p])) = tr @ p # tr2" and
        b: "readmit (?s2\<lparr>suspended_queue := remove1 p q\<rparr>) ps
           = (fst (load_suspended_loop ?s2 ps (d + 1) (tr @ [p])))\<lparr>suspended_queue :=
                filter (\<lambda>x. x \<notin> set tr2) (remove1 p q)\<rparr>"
        by auto
      from Cons.prems(2) have c: "filter (\<lambda>x. x \<notin> set tr2) (remove1 p q) = filter (\<lambda>x. x \<notin> set (p # tr2)) q"
        by (simp add: remove1_filter)
      have step: "try_load_to_memory ?v p = ?s2\<lparr>suspended_queue := remove1 p q\<rparr>"
        using Some False dom notin inq
        by (simp add: try_load_to_memory_eq place_def)
      have loop: "load_suspended_loop s (p # ps) d tr = load_suspended_loop ?s2 ps (d + 1) (tr @ [p])"
        using Some False notin by (simp add: allocate_process_eq place_def)
      have "snd (load_suspended_loop s (p # ps) d tr) = tr @ (p # tr2)
         \<and> readmit ?v (p # ps)
           = (fst (load_suspended_loop s (p # ps) d tr))\<lparr>suspended_queue := filter (\<lambda>x. x \<notin> set (p # tr2)) q\<rparr>"
        by (simp only: loop r step a b c)
      then show ?thesis by blast
    qed
  qed
qed

lemma load_suspended_loop_queue:
  "suspended_queue (fst (load_suspended_loop s ps d tr)) = suspended_queue s"
  by (induction ps arbitrary: s d tr) (auto simp: allocate_process_eq place_def split: option.splits)

lemma same_suspended_queue: "suspended_queue t = r \<Longrightarrow> t\<lparr>suspended_queue := r\<rparr> = t"
  by auto

lemma try_load_suspended_readmit:
  assumes "distinct (suspended_queue s)"
    and "set (suspended_queue s) \<inter> set (ready_queue s) = {}"
    and "\<forall>p \<in> set (suspended_queue s). state (procs s p) = Suspended"
  shows "try_load_suspended s = readmit s (suspended_queue s)"
proof (cases "current_dom s \<ge> degree_of_multiprogramming s")
  case True
  then show ?thesis by (cases "suspended_queue s") (simp_all add: try_load_suspended_def)
next
  case False
  let ?q = "suspended_queue s"
  from assms obtain tr2 where
    a: "snd (load_suspended_loop s ?q (current_dom s) []) = [] @ tr2" and
    b: "readmit (s\<lparr>suspended_queue := ?q\<rparr>) ?q
          = (fst (load_suspended_loop s ?q (current_dom s) []))\<lparr>suspended_queue := filter (\<lambda>x. x \<notin> set tr2) ?q\<rparr>"
    using load_suspended_loop_readmit [of "current_dom s" s ?q ?q "[]"] by auto
  obtain s1 tr' where run: "load_suspended_loop s ?q (current_dom s) [] = (s1, tr')"
    by (cases "load_suspended_loop s ?q (current_dom s) []") auto
  from load_suspended_loop_queue [of s ?q "current_dom s" "[]"] run
  have same: "suspended_queue s1 = ?q" by simp
  from assms(1) have "remove_each ?q tr2 = filter (\<lambda>x. x \<notin> set tr2) ?q"
    by (rule remove_each_filter)
  with False a b run same show ?thesis
    by (simp add: try_load_suspended_def)
qed

lemma try_load_suspended_inv:
  assumes "inv_core s"
  shows "inv_core (try_load_suspended s)"
proof -
  from assms have "try_load_suspended s = readmit s (suspended_queue s)"
    by (intro try_load_suspended_readmit) (auto simp: inv_core_def)
  moreover from assms have "inv_core (readmit s (suspended_queue s))"
    by (intro readmit_inv) (auto simp: inv_core_def)
  ultimately show ?thesis by simp
qed

subsection \<open>Scheduling\<close>

lemma min_remaining_in: "min_remaining s b xs \<in> set (b # xs)"
  by (induction xs arbitrary: b) auto

lemma min_remaining_le:
  "\<forall>x \<in> set (b # xs).
     remaining_time (procs s (min_remaining s b xs)) \<le> remaining_time (procs s x)"
proof (induction xs arbitrary: b)
  case Nil
  then show ?case by simp
next
  case (Cons y ys)
  from Cons.IH [of y] Cons.IH [of b] show ?case by auto
qed

lemma select_next_process_Some:
  assumes "select_next_process s q = Some n"
  shows "n \<in> set q" and "\<forall>x \<in> set q. remaining_time (procs s n) \<le> remaining_time (procs s x)"
proof -
  from assms obtain b xs where q: "q = b # xs" and n: "n = min_remaining s b xs"
    by (cases q) (auto simp: select_next_process_def)
  from min_remaining_in [of s b xs] q n show "n \<in> set q" by simp
  from min_remaining_le [of b xs s] q n
  show "\<forall>x \<in> set q. remaining_time (procs s n) \<le> remaining_time (procs s x)" by simp
qed

lemma select_next_process_None: "select_next_process s q = None \<longleftrightarrow> q = []"
  by (cases q) (simp_all add: select_next_process_def)

lemma should_preempt_iff:
  "should_preempt s q \<longleftrightarrow>
     (\<exists>c. current_process s = Some c
        \<and> (\<exists>x \<in> set q. remaining_time (procs s x) < remaining_time (procs s c)))"
proof (cases "current_process s")
  case None
  then show ?thesis by (simp add: should_preempt_def)
next
  case (Some c)
  show ?thesis
  proof (cases q)
    case Nil
    with Some show ?thesis by (simp add: should_preempt_def)
  next
    case (Cons b xs)
    have "remaining_time (procs s (min_remaining s b xs)) < remaining_time (procs s c)
        \<longleftrightarrow> (\<exists>x \<in> set (b # xs). remaining_time (procs s x) < remaining_time (procs s c))"
      using min_remaining_in [of s b xs] min_remaining_le [of b xs s]
      by (meson le_less_trans)
    with Some Cons show ?thesis by (simp add: should_preempt_def)
  qed
qed

lemma preempt_phase_eq:
  "preempt_phase s =
     (case current_process s of
        None \<Rightarrow> s
      | Some c \<Rightarrow>
          if should_preempt s (ready_queue s) then
            s\<lparr>procs := (procs s)(c := (procs s c)\<lparr>state := Ready\<rparr>), current_process := None,
              ready_queue := (if c \<in> set (ready_queue s) then ready_queue s else ready_queue s @ [c])\<rparr>
          else s)"
  by (auto simp: preempt_phase_def preempt_current_def upd_proc_def should_preempt_def split: option.splits)

lemma preempt_phase_inv:
  "inv_core s \<Longrightarrow> inv_core (preempt_phase s)"
  by (auto simp: preempt_phase_eq inv_core_def running_def split: option.splits)

lemma select_phase_eq:
  "select_phase s =
     (if current_process s = None then
        (case select_next_process s (ready_queue s) of
           None \<Rightarrow> s
         | Some n \<Rightarrow>
             s\<lparr>procs := (procs s)(n :=
                  (if first_execution_time (procs s n) = None
                   then (procs s n)\<lparr>first_execution_time := Some (clock s)\<rparr>
                   else procs s n)\<lparr>state := Executing\<rparr>),
               current_process := Some n,
               ready_queue := remove1 n (ready_queue s)\<rparr>)
      else s)"
  by (auto simp: select_phase_def start_execution_def upd_proc_def Let_def
      dest: select_next_process_Some(1) split: option.splits)

lemma select_phase_inv:
  assumes "inv_core s"
  shows "inv_core (select_phase s)"
proof (cases "current_process s = None \<and> select_next_process s (ready_queue s) \<noteq> None")
  case False
  then have "select_phase s = s" by (auto simp: select_phase_eq)
  with assms show ?thesis by simp
next
  case True
  then obtain n where n: "select_next_process s (ready_queue s) = Some n" by auto
  from select_next_process_Some(1) [OF n] have "n \<in> set (ready_queue s)" .
  with assms True n show ?thesis
    apply (simp add: select_phase_eq inv_core_def running_def)
    apply (intro conjI)
          apply (auto split: option.splits)
    done
qed

lemma schedule_process_inv: "inv_core s \<Longrightarrow> inv_core (schedule_process s)"
  by (simp add: schedule_process_def preempt_phase_inv select_phase_inv)

subsection \<open>Waiting and execution\<close>

lemma inv_core_cong:
  assumes "all_processes t = all_processes s" "ready_queue t = ready_queue s"
    "suspended_queue t = suspended_queue s" "terminated_queue t = terminated_queue s"
    "current_process t = current_process s"
    "\<And>i. process (parts t i) = process (parts s i)"
    "\<And>p. partition (procs t p) = partition (procs s p)"
    "\<And>p. state (procs t p) = state (procs s p)"
    "\<And>p. first_execution_time (procs t p) = first_execution_time (procs s p)"
  shows "inv_core t = inv_core s"
  by (simp add: inv_core_def running_def assms)

lemma inv_coreD:
  assumes "inv_core s"
  shows "distinct (all_processes s @ ready_queue s @ suspended_queue s @ terminated_queue s @ running s)"
    and "partition (procs s p) = Some i \<longleftrightarrow> process (parts s i) = Some p"
    and "partition (procs s p) \<noteq> None \<longleftrightarrow> p \<in> set (ready_queue s) \<or> current_process s = Some p"
    and "state (procs s p) = Executing \<longleftrightarrow> current_process s = Some p"
    and "p \<in> set (suspended_queue s) \<Longrightarrow> state (procs s p) = Suspended"
    and "p \<in> set (ready_queue s) \<Longrightarrow> state (procs s p) = Ready"
    and "state (procs s p) = Terminated \<longleftrightarrow> p \<in> set (terminated_queue s)"
    and "current_process s = Some c \<Longrightarrow> first_execution_time (procs s c) \<noteq> None"
  using assms unfolding inv_core_def by blast+

text \<open>Waiting only counts: it writes the field \<open>wait_time\<close> and nothing else.\<close>

definition waited :: "sim \<Rightarrow> sim \<Rightarrow> bool" where
  "waited s t \<longleftrightarrow>
     parts t = parts s \<and> partitions t = partitions s
   \<and> degree_of_multiprogramming t = degree_of_multiprogramming s \<and> clock t = clock s
   \<and> current_process t = current_process s \<and> all_processes t = all_processes s
   \<and> loaded_processes t = loaded_processes s \<and> ready_queue t = ready_queue s
   \<and> suspended_queue t = suspended_queue s \<and> terminated_queue t = terminated_queue s
   \<and> (\<forall>p. (procs t p)\<lparr>wait_time := 0\<rparr> = (procs s p)\<lparr>wait_time := 0\<rparr>)"

lemma same_but_wait_time:
  assumes "pr\<lparr>wait_time := 0\<rparr> = pr'\<lparr>wait_time := 0\<rparr>"
  shows "state pr = state pr'" and "remaining_time pr = remaining_time pr'"
    and "partition pr = partition pr'" and "first_execution_time pr = first_execution_time pr'"
    and "arrival_time pr = arrival_time pr'" and "burst_time pr = burst_time pr'"
    and "proc_size pr = proc_size pr'" and "proc_id pr = proc_id pr'"
    and "finish_time pr = finish_time pr'" and "turnaround_time pr = turnaround_time pr'"
  using assms by (cases pr; cases pr'; simp)+

lemma waited_proc:
  assumes "waited s t"
  shows "state (procs t p) = state (procs s p)"
    and "remaining_time (procs t p) = remaining_time (procs s p)"
    and "partition (procs t p) = partition (procs s p)"
    and "first_execution_time (procs t p) = first_execution_time (procs s p)"
    and "arrival_time (procs t p) = arrival_time (procs s p)"
    and "burst_time (procs t p) = burst_time (procs s p)"
    and "finish_time (procs t p) = finish_time (procs s p)"
    and "turnaround_time (procs t p) = turnaround_time (procs s p)"
proof -
  from assms have "(procs t p)\<lparr>wait_time := 0\<rparr> = (procs s p)\<lparr>wait_time := 0\<rparr>"
    by (simp add: waited_def)
  from same_but_wait_time [OF this]
  show "state (procs t p) = state (procs s p)"
    and "remaining_time (procs t p) = remaining_time (procs s p)"
    and "partition (procs t p) = partition (procs s p)"
    and "first_execution_time (procs t p) = first_execution_time (procs s p)"
    and "arrival_time (procs t p) = arrival_time (procs s p)"
    and "burst_time (procs t p) = burst_time (procs s p)"
    and "finish_time (procs t p) = finish_time (procs s p)"
    and "turnaround_time (procs t p) = turnaround_time (procs s p)"
    by simp_all
qed

lemma waited_refl: "waited s s"
  by (simp add: waited_def)

lemma waited_trans: "waited s t \<Longrightarrow> waited t u \<Longrightarrow> waited s u"
  by (simp add: waited_def)

lemma waited_step: "waited s (upd_proc s p (\<lambda>pr. pr\<lparr>wait_time := wait_time pr + 1\<rparr>))"
  by (simp add: waited_def upd_proc_def)

lemma wait_loop_waited: "waited s (wait_loop s e ps)"
proof (induction ps arbitrary: s)
  case Nil
  then show ?case by (simp add: waited_refl)
next
  case (Cons p ps)
  show ?case
    using Cons.IH [of s] Cons.IH [of "upd_proc s p (\<lambda>pr. pr\<lparr>wait_time := wait_time pr + 1\<rparr>)"]
      waited_step [of s p]
    by (auto intro: waited_trans)
qed

lemma update_wait_times_waited: "waited s (update_wait_times s)"
  by (simp add: update_wait_times_def wait_loop_waited)

lemma waited_inv:
  assumes "waited s t" and "inv_core s"
  shows "inv_core t"
proof -
  from assms(1) have q: "parts t = parts s" "current_process t = current_process s"
    "all_processes t = all_processes s" "ready_queue t = ready_queue s"
    "suspended_queue t = suspended_queue s" "terminated_queue t = terminated_queue s"
    by (simp_all add: waited_def)
  have "inv_core t = inv_core s"
    by (rule inv_core_cong) (simp_all add: q waited_proc [OF assms(1)])
  with assms(2) show ?thesis by simp
qed

lemma update_wait_times_inv: "inv_core s \<Longrightarrow> inv_core (update_wait_times s)"
  using update_wait_times_waited waited_inv by blast

lemma sim_execute_tick_eq:
  "sim_execute_tick s =
     (case current_process s of
        None \<Rightarrow> s
      | Some c \<Rightarrow>
          if remaining_time (procs s c) - 1 \<le> 0 then
            (let pr = calculate_statistics ((procs s c)\<lparr>remaining_time := remaining_time (procs s c) - 1,
                        state := Terminated, finish_time := clock s + 1\<rparr>);
                 s1 = s\<lparr>procs := (procs s)(c := pr)\<rparr>;
                 s2 = free_process s1 c
             in s2\<lparr>terminated_queue := (if c \<in> set (terminated_queue s) then terminated_queue s
                                         else terminated_queue s @ [c]),
                    current_process := None, process_finished := True\<rparr>)
          else s\<lparr>procs := (procs s)(c := (procs s c)\<lparr>remaining_time := remaining_time (procs s c) - 1\<rparr>)\<rparr>)"
  by (auto simp: sim_execute_tick_def execute_tick_def upd_proc_def upd_part_def free_process_def free_def Let_def
      split: option.splits)


lemma calculate_statistics_fields [simp]:
  "state (calculate_statistics pr) = state pr"
  "partition (calculate_statistics pr) = partition pr"
  "remaining_time (calculate_statistics pr) = remaining_time pr"
  "first_execution_time (calculate_statistics pr) = first_execution_time pr"
  "finish_time (calculate_statistics pr) = finish_time pr"
  "arrival_time (calculate_statistics pr) = arrival_time pr"
  "burst_time (calculate_statistics pr) = burst_time pr"
  "turnaround_time (calculate_statistics pr) = finish_time pr - arrival_time pr"
  by (simp_all add: calculate_statistics_def Let_def split: option.splits)

lemma inv_core_unique:
  assumes "inv_core s" and "process (parts s j) = Some p" and "process (parts s i) = Some p"
  shows "j = i"
proof -
  from assms(2) inv_coreD(2) [OF assms(1), of p j] have "partition (procs s p) = Some j" by simp
  moreover from assms(3) inv_coreD(2) [OF assms(1), of p i] have "partition (procs s p) = Some i" by simp
  ultimately show ?thesis by simp
qed

text \<open>A finishing process whose partition points back at it.\<close>

definition finished_proc :: "sim \<Rightarrow> nat \<Rightarrow> Process" where
  "finished_proc s c =
     (calculate_statistics ((procs s c)\<lparr>remaining_time := remaining_time (procs s c) - 1,
        state := Terminated, finish_time := clock s + 1\<rparr>))\<lparr>partition := None\<rparr>"

lemma sim_execute_tick_finish:
  assumes "current_process s = Some c" and "remaining_time (procs s c) - 1 \<le> 0"
    and "partition (procs s c) = Some i" and "process (parts s i) = Some c"
  shows "sim_execute_tick s =
     s\<lparr>procs := (procs s)(c := finished_proc s c),
       parts := (parts s)(i := (parts s i)\<lparr>process := None, internal_fragmentation := 0\<rparr>),
       terminated_queue := (if c \<in> set (terminated_queue s) then terminated_queue s
                            else terminated_queue s @ [c]),
       current_process := None, process_finished := True\<rparr>"
  using assms
  by (simp add: sim_execute_tick_eq finished_proc_def Let_def free_process_def free_def
      upd_proc_def upd_part_def)

lemma sim_execute_tick_inv:
  assumes "inv_core s"
  shows "inv_core (sim_execute_tick s)"
proof (cases "current_process s")
  case None
  with assms show ?thesis by (simp add: sim_execute_tick_eq)
next
  case (Some c)
  show ?thesis
  proof (cases "remaining_time (procs s c) - 1 \<le> 0")
    case False
    with Some assms show ?thesis
      by (auto simp: sim_execute_tick_eq inv_core_def running_def)
  next
    case True
    from inv_coreD(3) [OF assms, of c] Some obtain i where "partition (procs s c) = Some i"
      by auto
    with inv_coreD(2) [OF assms, of c i]
    have i: "partition (procs s c) = Some i" "process (parts s i) = Some c" by simp_all
    have fin: "state (finished_proc s c) = Terminated" "partition (finished_proc s c) = None"
      by (simp_all add: finished_proc_def)
    have eq: "sim_execute_tick s =
       s\<lparr>procs := (procs s)(c := finished_proc s c),
         parts := (parts s)(i := (parts s i)\<lparr>process := None, internal_fragmentation := 0\<rparr>),
         terminated_queue := (if c \<in> set (terminated_queue s) then terminated_queue s
                              else terminated_queue s @ [c]),
         current_process := None, process_finished := True\<rparr>"
      using Some True i by (rule sim_execute_tick_finish)
    from assms Some i show ?thesis
      unfolding eq
      apply (simp add: inv_core_def running_def fin)
      apply (intro conjI)
           apply (auto simp: fin dest: inv_core_unique [OF assms])
      done
  qed
qed

lemma before_execute_inv: "inv_core s \<Longrightarrow> inv_core (before_execute s)"
proof -
  assume "inv_core s"
  moreover have "inv_core (s\<lparr>new_process_arrived := False, process_finished := False\<rparr>) = inv_core s"
    by (rule inv_core_cong) simp_all
  ultimately have "inv_core (s\<lparr>new_process_arrived := False, process_finished := False\<rparr>)"
    by simp
  then show ?thesis
    unfolding before_execute_def
    by (intro update_wait_times_inv schedule_process_inv try_load_suspended_inv arrive_new_processes_inv)
qed

lemma tick_inv: "inv_core s \<Longrightarrow> inv_core (tick s)"
proof -
  assume "inv_core s"
  then have "inv_core (sim_execute_tick (before_execute s))"
    by (intro sim_execute_tick_inv before_execute_inv)
  moreover have "inv_core (tick s) = inv_core (sim_execute_tick (before_execute s))"
    by (rule inv_core_cong) (simp_all add: tick_def Let_def)
  ultimately show ?thesis by simp
qed

lemma initial_inv: "inv_core (initial rows pcfg degree)"
  by (simp add: inv_core_def running_def initial_def new_Process_def new_Partition_def split: prod.splits)

section \<open>What a pass leaves alone\<close>

text \<open>
  Every step before the execution step is quiet: it keeps the clock, the
  configuration, the terminated queue, the times of every process and every occupied
  partition, and it never changes a first execution time that is set.
\<close>

definition quiet :: "sim \<Rightarrow> sim \<Rightarrow> bool" where
  "quiet s t \<longleftrightarrow>
     clock t = clock s \<and> degree_of_multiprogramming t = degree_of_multiprogramming s
   \<and> loaded_processes t = loaded_processes s \<and> partitions t = partitions s
   \<and> terminated_queue t = terminated_queue s
   \<and> (\<forall>p. remaining_time (procs t p) = remaining_time (procs s p)
          \<and> arrival_time (procs t p) = arrival_time (procs s p)
          \<and> burst_time (procs t p) = burst_time (procs s p)
          \<and> finish_time (procs t p) = finish_time (procs s p)
          \<and> turnaround_time (procs t p) = turnaround_time (procs s p))
   \<and> (\<forall>p f. first_execution_time (procs s p) = Some f \<longrightarrow> first_execution_time (procs t p) = Some f)
   \<and> (\<forall>i p. process (parts s i) = Some p \<longrightarrow> process (parts t i) = Some p)"

lemma quiet_refl: "quiet s s"
  by (simp add: quiet_def)

lemma quiet_trans: "quiet s t \<Longrightarrow> quiet t u \<Longrightarrow> quiet s u"
  by (simp add: quiet_def)

lemma try_load_to_memory_quiet: "quiet s (try_load_to_memory s p)"
proof (cases "find_best_fit s p")
  case None
  then show ?thesis
    by (simp add: quiet_def try_load_to_memory_eq suspend_def upd_proc_def Let_def)
next
  case (Some i)
  from find_best_fit_Some_fits(2) [OF Some] have "process (parts s i) = None"
    by (simp add: fits_def is_free_def)
  with Some show ?thesis
    by (simp add: quiet_def try_load_to_memory_eq suspend_def upd_proc_def place_def Let_def)
qed

lemma load_each_quiet: "quiet s (load_each s ps)"
proof (induction ps arbitrary: s)
  case Nil
  show ?case by (simp add: quiet_refl)
next
  case (Cons p ps)
  from try_load_to_memory_quiet [of s p] Cons.IH [of "try_load_to_memory s p"]
  show ?case by (auto intro: quiet_trans)
qed

lemma arrive_scan_quiet: "quiet s (fst (arrive_scan s ps a r))"
proof (induction ps arbitrary: s a r)
  case Nil
  show ?case by (simp add: quiet_refl)
next
  case (Cons p ps)
  let ?s = "upd_proc s p (\<lambda>pr. pr\<lparr>state := New\<rparr>)\<lparr>new_process_arrived := True\<rparr>"
  have "quiet s ?s" by (simp add: quiet_def upd_proc_def)
  with Cons.IH [of ?s] Cons.IH [of s] show ?case
    by (auto intro: quiet_trans)
qed

lemma arrive_new_processes_quiet: "quiet s (arrive_new_processes s)"
proof -
  obtain s1 a1 r1 where scan: "arrive_scan s (all_processes s) [] [] = (s1, a1, r1)"
    by (cases "arrive_scan s (all_processes s) [] []") auto
  from arrive_scan_quiet [of s "all_processes s" "[]" "[]"] scan have "quiet s s1" by simp
  then have "quiet s (s1\<lparr>all_processes := r1\<rparr>)" by (simp add: quiet_def)
  with load_each_quiet [of "s1\<lparr>all_processes := r1\<rparr>" a1] scan show ?thesis
    by (auto simp: arrive_new_processes_def intro: quiet_trans)
qed

lemma load_suspended_loop_quiet: "quiet s (fst (load_suspended_loop s ps d tr))"
proof (induction ps arbitrary: s d tr)
  case Nil
  show ?case by (simp add: quiet_refl)
next
  case (Cons p ps)
  show ?case
  proof (cases "find_best_fit s p")
    case None
    with Cons.IH [of s] show ?thesis by (simp add: allocate_process_eq quiet_refl)
  next
    case (Some i)
    from find_best_fit_Some_fits(2) [OF Some] have free: "process (parts s i) = None"
      by (simp add: fits_def is_free_def)
    let ?s = "if p \<notin> set (ready_queue (place s i p))
        then (place s i p)\<lparr>ready_queue := ready_queue (place s i p) @ [p]\<rparr> else place s i p"
    from free have "quiet s ?s" by (simp add: quiet_def place_def)
    with Cons.IH [of ?s "d + 1" "tr @ [p]"] have "quiet s (fst (load_suspended_loop ?s ps (d + 1) (tr @ [p])))"
      by (rule quiet_trans [rotated])
    with Some show ?thesis by (simp add: allocate_process_eq quiet_refl)
  qed
qed

lemma try_load_suspended_quiet: "quiet s (try_load_suspended s)"
proof (cases "current_dom s \<ge> degree_of_multiprogramming s")
  case True
  then show ?thesis by (simp add: try_load_suspended_def quiet_refl)
next
  case False
  obtain s1 tr where run: "load_suspended_loop s (suspended_queue s) (current_dom s) [] = (s1, tr)"
    by (cases "load_suspended_loop s (suspended_queue s) (current_dom s) []") auto
  from load_suspended_loop_quiet [of s "suspended_queue s" "current_dom s" "[]"] run
  have "quiet s s1" by simp
  then have "quiet s (s1\<lparr>suspended_queue := remove_each (suspended_queue s1) tr\<rparr>)"
    by (simp add: quiet_def)
  with False run show ?thesis by (simp add: try_load_suspended_def)
qed

lemma preempt_phase_quiet: "quiet s (preempt_phase s)"
  by (simp add: preempt_phase_eq quiet_def split: option.splits)

lemma select_phase_quiet: "quiet s (select_phase s)"
  by (simp add: select_phase_eq quiet_def split: option.splits)

lemma schedule_process_quiet: "quiet s (schedule_process s)"
  using preempt_phase_quiet [of s] select_phase_quiet [of "preempt_phase s"]
  by (auto simp: schedule_process_def intro: quiet_trans)

lemma update_wait_times_quiet: "quiet s (update_wait_times s)"
proof -
  have w: "waited s (update_wait_times s)" by (rule update_wait_times_waited)
  then show ?thesis
    by (simp add: quiet_def waited_proc [OF w]) (simp add: waited_def)
qed

lemma before_execute_quiet: "quiet s (before_execute s)"
proof -
  let ?s0 = "s\<lparr>new_process_arrived := False, process_finished := False\<rparr>"
  let ?s1 = "arrive_new_processes ?s0"
  let ?s2 = "try_load_suspended ?s1"
  let ?s3 = "schedule_process ?s2"
  have "quiet s ?s0" by (simp add: quiet_def)
  then have "quiet s ?s1" using arrive_new_processes_quiet by (rule quiet_trans)
  then have "quiet s ?s2" using try_load_suspended_quiet by (rule quiet_trans)
  then have "quiet s ?s3" using schedule_process_quiet by (rule quiet_trans)
  then have "quiet s (update_wait_times ?s3)" using update_wait_times_quiet by (rule quiet_trans)
  then show ?thesis by (simp add: before_execute_def)
qed

lemma free_process_frame:
  "clock (free_process s p) = clock s"
  "degree_of_multiprogramming (free_process s p) = degree_of_multiprogramming s"
  "loaded_processes (free_process s p) = loaded_processes s"
  "partitions (free_process s p) = partitions s"
  "terminated_queue (free_process s p) = terminated_queue s"
  by (simp_all add: free_process_def free_def upd_proc_def upd_part_def Let_def split: option.splits)

lemma sim_execute_tick_frame:
  "clock (sim_execute_tick s) = clock s"
  "degree_of_multiprogramming (sim_execute_tick s) = degree_of_multiprogramming s"
  "loaded_processes (sim_execute_tick s) = loaded_processes s"
  "partitions (sim_execute_tick s) = partitions s"
  by (simp_all add: sim_execute_tick_eq free_process_frame Let_def split: option.splits)

lemma tick_frame:
  "clock (tick s) = clock s + 1"
  "degree_of_multiprogramming (tick s) = degree_of_multiprogramming s"
  "loaded_processes (tick s) = loaded_processes s"
  "partitions (tick s) = partitions s"
  using before_execute_quiet [of s]
  by (simp_all add: tick_def Let_def sim_execute_tick_frame quiet_def)

section \<open>The main loop\<close>

text \<open>
  The \<^verbatim>\<open>while\<close> loop of \<^verbatim>\<open>run\<close> with its guard \<^verbatim>\<open>len(terminated_queue) < total_processes\<close>
  and the \<^verbatim>\<open>break\<close> at \<^verbatim>\<open>max_ticks = 1000\<close>. The second component of the result
  says whether the loop left through the \<^verbatim>\<open>break\<close>, where the source prints its
  warning. The distance of the clock to the bound shrinks with every pass.
\<close>

function run_loop :: "sim \<Rightarrow> nat \<Rightarrow> sim \<times> bool" where
  "run_loop s total_processes =
     (if length (terminated_queue s) < total_processes then
        (if clock s \<ge> 1000 then (s, True) else run_loop (tick s) total_processes)
      else (s, False))"
  by pat_completeness auto
termination
  by (relation "measure (\<lambda>(s, n). nat (1000 - clock s))") (auto simp: tick_frame)

text \<open>\<^verbatim>\<open>run\<close> counts the processes once, before the loop.\<close>

definition run :: "sim \<Rightarrow> sim \<times> bool" where
  "run s = run_loop s (length (all_processes s))"

text \<open>
  The rows of the table \<^verbatim>\<open>show_statistics\<close> builds from \<^verbatim>\<open>loaded_processes\<close>, sorted by
  process id: id, arrival, burst, then finish and turnaround (\<open>None\<close> is the cell
  \<^verbatim>\<open>N/A\<close> of a process that did not terminate) and the wait time. This is the
  table of the branch that has \<^verbatim>\<open>tabulate\<close>; the fallback branch prints the rows of
  the terminated processes only. The averages under the table are floating-point
  numbers and are not modelled.
\<close>

definition statistics_row :: "Process \<Rightarrow> int \<times> int \<times> int \<times> int option \<times> int option \<times> int" where
  "statistics_row pr =
     (if state pr = Terminated then
        (let pr1 = calculate_statistics pr in
         (proc_id pr1, arrival_time pr1, burst_time pr1, Some (finish_time pr1),
          Some (turnaround_time pr1), wait_time pr1))
      else (proc_id pr, arrival_time pr, burst_time pr, None, None, wait_time pr))"

definition show_statistics :: "sim \<Rightarrow> (int \<times> int \<times> int \<times> int option \<times> int option \<times> int) list" where
  "show_statistics s =
     map (\<lambda>p. statistics_row (procs s p))
       (sort_key (\<lambda>p. proc_id (procs s p)) (loaded_processes s))"

declare run_loop.simps [simp del]

lemma run_loop_ticks:
  "\<exists>k. k \<le> nat (1000 - clock s) \<and> fst (run_loop s n) = (tick ^^ k) s"
proof (induction s n rule: run_loop.induct)
  case (1 s n)
  show ?case
  proof (cases "length (terminated_queue s) < n \<and> \<not> clock s \<ge> 1000")
    case False
    then have "fst (run_loop s n) = (tick ^^ 0) s"
      by (auto simp: run_loop.simps [of s n])
    then show ?thesis by blast
  next
    case True
    with "1.IH" obtain k where k: "k \<le> nat (1000 - clock (tick s))"
      "fst (run_loop (tick s) n) = (tick ^^ k) (tick s)" by auto
    from True have "run_loop s n = run_loop (tick s) n"
      by (simp add: run_loop.simps [of s n])
    with k have "fst (run_loop s n) = (tick ^^ Suc k) s"
      by (simp add: funpow_swap1)
    moreover from k(1) True have "Suc k \<le> nat (1000 - clock s)"
      by (simp add: tick_frame) linarith
    ultimately show ?thesis by blast
  qed
qed

lemma run_loop_exit:
  "(snd (run_loop s n) \<longleftrightarrow> length (terminated_queue (fst (run_loop s n))) < n)
   \<and> (snd (run_loop s n) \<longrightarrow> clock (fst (run_loop s n)) \<ge> 1000)"
proof (induction s n rule: run_loop.induct)
  case (1 s n)
  show ?case
  proof (cases "length (terminated_queue s) < n \<and> \<not> clock s \<ge> 1000")
    case False
    then show ?thesis by (auto simp: run_loop.simps [of s n])
  next
    case True
    then have "run_loop s n = run_loop (tick s) n"
      by (simp add: run_loop.simps [of s n])
    with True "1.IH" show ?thesis by simp
  qed
qed

lemma show_statistics_terminated:
  assumes "p \<in> set (loaded_processes s)" and "state (procs s p) = Terminated"
  shows "(proc_id (procs s p), arrival_time (procs s p), burst_time (procs s p),
          Some (finish_time (procs s p)),
          Some (finish_time (procs s p) - arrival_time (procs s p)),
          wait_time (calculate_statistics (procs s p))) \<in> set (show_statistics s)"
proof -
  from assms(1) have "p \<in> set (sort_key (\<lambda>p. proc_id (procs s p)) (loaded_processes s))"
    by simp
  then have "statistics_row (procs s p) \<in> set (show_statistics s)"
    unfolding show_statistics_def by (auto simp del: set_sort)
  with assms(2) show ?thesis
    by (simp add: statistics_row_def Let_def calculate_statistics_def split: option.splits)
qed


text \<open>
  \<open>ex_one\<close>: one 50K process with a burst of 2 and one partition of 100K.
  \<open>ex_late\<close>: a 500K process that no partition can hold, one pass before the bound.
\<close>

definition ex_one :: sim where
  "ex_one = initial [(1, 50, 0, 2)] [(1, 100, 0)] 5"

definition ex_late :: sim where
  "ex_late = (initial [(1, 500, 0, 2)] [(1, 100, 0)] 5)\<lparr>clock := 999\<rparr>"

text \<open>
  C6. \<^verbatim>\<open>run\<close> always terminates: its loop is a total function whose result is
  reached after at most \<open>1000 - clock\<close> passes. The loop is left through the
  \<^verbatim>\<open>break\<close> (the warning) exactly when fewer processes than were loaded have
  terminated, and then the clock has reached 1000; otherwise every loaded process has
  terminated. Either way the final table has, for every loaded process in state
  Terminated, the row with its finish, turnaround and wait time.
\<close>

theorem run_stops_within_bound:
  "(\<exists>k. k \<le> nat (1000 - clock s) \<and> fst (run s) = (tick ^^ k) s)
   \<and> (snd (run s) \<longleftrightarrow> length (terminated_queue (fst (run s))) < length (all_processes s))
   \<and> (snd (run s) \<longrightarrow> 1000 \<le> clock (fst (run s)))
   \<and> (\<forall>p \<in> set (loaded_processes (fst (run s))).
         state (procs (fst (run s)) p) = Terminated \<longrightarrow>
         (proc_id (procs (fst (run s)) p), arrival_time (procs (fst (run s)) p),
          burst_time (procs (fst (run s)) p), Some (finish_time (procs (fst (run s)) p)),
          Some (finish_time (procs (fst (run s)) p) - arrival_time (procs (fst (run s)) p)),
          wait_time (calculate_statistics (procs (fst (run s)) p)))
           \<in> set (show_statistics (fst (run s))))"
  unfolding run_def
  using run_loop_ticks [of s "length (all_processes s)"]
    run_loop_exit [of s "length (all_processes s)"]
  by (auto intro: show_statistics_terminated)

text \<open>
  Both exits: \<open>ex_late\<close> is stopped by the bound with nothing terminated, \<open>ex_one\<close>
  completes and reports the row of its process.
\<close>

theorem run_stops_within_bound_witness:
  "snd (run ex_late)
   \<and> length (terminated_queue (fst (run ex_late))) < length (all_processes ex_late)
   \<and> 1000 \<le> clock (fst (run ex_late))
   \<and> \<not> snd (run ex_one)
   \<and> 0 \<in> set (loaded_processes (fst (run ex_one)))
   \<and> state (procs (fst (run ex_one)) 0) = Terminated
   \<and> (1, 0, 2, Some 2, Some 2, 0) \<in> set (show_statistics (fst (run ex_one)))"
proof -
  have late: "snd (run ex_late)"
    by code_simp
  have one: "\<not> snd (run ex_one) \<and> 0 \<in> set (loaded_processes (fst (run ex_one)))
      \<and> state (procs (fst (run ex_one)) 0) = Terminated"
    by code_simp
  have row: "proc_id (procs (fst (run ex_one)) 0) = 1 \<and> arrival_time (procs (fst (run ex_one)) 0) = 0
      \<and> burst_time (procs (fst (run ex_one)) 0) = 2 \<and> finish_time (procs (fst (run ex_one)) 0) = 2
      \<and> wait_time (calculate_statistics (procs (fst (run ex_one)) 0)) = 0"
    by code_simp
  from run_stops_within_bound [of ex_late] late
  have "length (terminated_queue (fst (run ex_late))) < length (all_processes ex_late)
      \<and> 1000 \<le> clock (fst (run ex_late))"
    by blast
  moreover from run_stops_within_bound [of ex_one] one
  have "(proc_id (procs (fst (run ex_one)) 0), arrival_time (procs (fst (run ex_one)) 0),
          burst_time (procs (fst (run ex_one)) 0), Some (finish_time (procs (fst (run ex_one)) 0)),
          Some (finish_time (procs (fst (run ex_one)) 0) - arrival_time (procs (fst (run ex_one)) 0)),
          wait_time (calculate_statistics (procs (fst (run ex_one)) 0)))
           \<in> set (show_statistics (fst (run ex_one)))"
    by blast
  ultimately show ?thesis using late one row by simp
qed

section \<open>Preemption\<close>

text \<open>Admission steps keep the current process and only add to the ready queue.\<close>

definition admits :: "sim \<Rightarrow> sim \<Rightarrow> bool" where
  "admits s t \<longleftrightarrow>
     current_process t = current_process s \<and> set (ready_queue s) \<subseteq> set (ready_queue t)"

lemma admits_refl: "admits s s"
  by (simp add: admits_def)

lemma admits_trans: "admits s t \<Longrightarrow> admits t u \<Longrightarrow> admits s u"
  by (auto simp: admits_def)

lemma try_load_to_memory_admits: "admits s (try_load_to_memory s p)"
  by (auto simp: admits_def try_load_to_memory_eq suspend_def upd_proc_def place_def Let_def
      split: option.splits)

lemma load_each_admits: "admits s (load_each s ps)"
proof (induction ps arbitrary: s)
  case Nil
  show ?case by (simp add: admits_refl)
next
  case (Cons p ps)
  from try_load_to_memory_admits [of s p] Cons.IH [of "try_load_to_memory s p"]
  show ?case by (auto intro: admits_trans)
qed

lemma arrive_scan_admits: "admits s (fst (arrive_scan s ps a r))"
proof (induction ps arbitrary: s a r)
  case Nil
  show ?case by (simp add: admits_refl)
next
  case (Cons p ps)
  let ?s = "upd_proc s p (\<lambda>pr. pr\<lparr>state := New\<rparr>)\<lparr>new_process_arrived := True\<rparr>"
  have "admits s ?s" by (simp add: admits_def upd_proc_def)
  with Cons.IH [of ?s] Cons.IH [of s] show ?case
    by (auto intro: admits_trans)
qed

lemma arrive_new_processes_admits: "admits s (arrive_new_processes s)"
proof -
  obtain s1 a1 r1 where scan: "arrive_scan s (all_processes s) [] [] = (s1, a1, r1)"
    by (cases "arrive_scan s (all_processes s) [] []") auto
  from arrive_scan_admits [of s "all_processes s" "[]" "[]"] scan have "admits s s1" by simp
  then have "admits s (s1\<lparr>all_processes := r1\<rparr>)" by (simp add: admits_def)
  with load_each_admits [of "s1\<lparr>all_processes := r1\<rparr>" a1] scan show ?thesis
    by (auto simp: arrive_new_processes_def intro: admits_trans)
qed

lemma load_suspended_loop_admits: "admits s (fst (load_suspended_loop s ps d tr))"
proof (induction ps arbitrary: s d tr)
  case Nil
  show ?case by (simp add: admits_refl)
next
  case (Cons p ps)
  show ?case
  proof (cases "find_best_fit s p")
    case None
    with Cons.IH [of s] show ?thesis by (simp add: allocate_process_eq admits_refl)
  next
    case (Some i)
    let ?s = "if p \<notin> set (ready_queue (place s i p))
        then (place s i p)\<lparr>ready_queue := ready_queue (place s i p) @ [p]\<rparr> else place s i p"
    have "admits s ?s" by (auto simp: admits_def place_def)
    with Cons.IH [of ?s "d + 1" "tr @ [p]"] have "admits s (fst (load_suspended_loop ?s ps (d + 1) (tr @ [p])))"
      by (rule admits_trans [rotated])
    with Some show ?thesis by (simp add: allocate_process_eq admits_refl)
  qed
qed

lemma try_load_suspended_admits: "admits s (try_load_suspended s)"
proof (cases "current_dom s \<ge> degree_of_multiprogramming s")
  case True
  then show ?thesis by (simp add: try_load_suspended_def admits_refl)
next
  case False
  obtain s1 tr where run: "load_suspended_loop s (suspended_queue s) (current_dom s) [] = (s1, tr)"
    by (cases "load_suspended_loop s (suspended_queue s) (current_dom s) []") auto
  from load_suspended_loop_admits [of s "suspended_queue s" "current_dom s" "[]"] run
  have "admits s s1" by simp
  then have "admits s (s1\<lparr>suspended_queue := remove_each (suspended_queue s1) tr\<rparr>)"
    by (simp add: admits_def)
  with False run show ?thesis by (simp add: try_load_suspended_def)
qed

text \<open>The state in which a pass takes its scheduling decision.\<close>

definition before_schedule :: "sim \<Rightarrow> sim" where
  "before_schedule s =
     try_load_suspended (arrive_new_processes
       (s\<lparr>new_process_arrived := False, process_finished := False\<rparr>))"

lemma before_execute_schedule:
  "before_execute s = update_wait_times (schedule_process (before_schedule s))"
  by (simp add: before_execute_def before_schedule_def)

lemma before_schedule_admits: "admits s (before_schedule s)"
proof -
  let ?s0 = "s\<lparr>new_process_arrived := False, process_finished := False\<rparr>"
  have "admits s ?s0" by (simp add: admits_def)
  then have "admits s (arrive_new_processes ?s0)"
    using arrive_new_processes_admits by (rule admits_trans)
  then show ?thesis
    unfolding before_schedule_def using try_load_suspended_admits by (rule admits_trans)
qed

lemma before_schedule_quiet: "quiet s (before_schedule s)"
proof -
  let ?s0 = "s\<lparr>new_process_arrived := False, process_finished := False\<rparr>"
  have "quiet s ?s0" by (simp add: quiet_def)
  then have "quiet s (arrive_new_processes ?s0)"
    using arrive_new_processes_quiet by (rule quiet_trans)
  then show ?thesis
    unfolding before_schedule_def using try_load_suspended_quiet by (rule quiet_trans)
qed

lemma schedule_preempts:
  assumes cur: "current_process m = Some c"
    and q: "q \<in> set (ready_queue m)"
    and less: "remaining_time (procs m q) < remaining_time (procs m c)"
  shows "should_preempt m (ready_queue m)"
    and "state (procs (preempt_phase m) c) = Ready"
    and "c \<in> set (ready_queue (preempt_phase m))"
    and "current_process (preempt_phase m) = None"
    and "\<exists>n. current_process (schedule_process m) = Some n \<and> n \<noteq> c
          \<and> remaining_time (procs m n) < remaining_time (procs m c)"
    and "c \<in> set (ready_queue (schedule_process m))"
    and "state (procs (schedule_process m) c) = Ready"
proof -
  let ?m1 = "preempt_phase m"
  show sp: "should_preempt m (ready_queue m)"
    using assms by (auto simp: should_preempt_iff)
  with cur have m1: "?m1 = m\<lparr>procs := (procs m)(c := (procs m c)\<lparr>state := Ready\<rparr>), current_process := None,
        ready_queue := (if c \<in> set (ready_queue m) then ready_queue m else ready_queue m @ [c])\<rparr>"
    by (simp add: preempt_phase_eq)
  show st1: "state (procs ?m1 c) = Ready" and in1: "c \<in> set (ready_queue ?m1)"
    and cur1: "current_process ?m1 = None"
    by (simp_all add: m1)
  have rem1: "remaining_time (procs ?m1 x) = remaining_time (procs m x)" for x
    by (simp add: m1)
  from q have q1: "q \<in> set (ready_queue ?m1)" by (simp add: m1)
  then have "select_next_process ?m1 (ready_queue ?m1) \<noteq> None"
    by (auto simp: select_next_process_None)
  then obtain n where n: "select_next_process ?m1 (ready_queue ?m1) = Some n" by auto
  from select_next_process_Some [OF n] q1
  have nin: "n \<in> set (ready_queue ?m1)"
    and "remaining_time (procs ?m1 n) \<le> remaining_time (procs ?m1 q)" by auto
  with less have nless: "remaining_time (procs m n) < remaining_time (procs m c)"
    by (simp add: rem1)
  then have nc: "n \<noteq> c" by auto
  have m2: "schedule_process m =
      ?m1\<lparr>procs := (procs ?m1)(n :=
                  (if first_execution_time (procs ?m1 n) = None
                   then (procs ?m1 n)\<lparr>first_execution_time := Some (clock ?m1)\<rparr>
                   else procs ?m1 n)\<lparr>state := Executing\<rparr>),
               current_process := Some n,
               ready_queue := remove1 n (ready_queue ?m1)\<rparr>"
    using cur1 n by (simp add: schedule_process_def select_phase_eq)
  from nless nc show "\<exists>n. current_process (schedule_process m) = Some n \<and> n \<noteq> c
          \<and> remaining_time (procs m n) < remaining_time (procs m c)"
    by (simp add: m2)
  from in1 nc show "c \<in> set (ready_queue (schedule_process m))"
    by (simp add: m2)
  from st1 nc show "state (procs (schedule_process m) c) = Ready"
    by (simp add: m2)
qed

text \<open>
  \<open>ex_srtf\<close>: process 0 (burst 5) has run for one unit when process 1 (burst 2)
  arrives at time 1 and is loaded; the state is the one right after that arrival.
\<close>

definition ex_srtf :: sim where
  "ex_srtf = arrive_new_processes (tick (initial [(1, 50, 0, 5), (2, 50, 1, 2)] [(1, 100, 0), (2, 60, 100)] 5))"


text \<open>
  C3. \<^verbatim>\<open>should_preempt\<close> is true exactly when there is a current process and some
  process of the ready queue has a strictly smaller remaining time. In every state,
  reachable or not, in which that holds at the start of a pass, it still holds when the
  pass takes its scheduling decision, and the decision preempts: after the preemption
  check and before the selection the former current process is Ready, in the ready
  queue, and the CPU is idle; the selection then starts another process, one with a
  strictly smaller remaining time, and leaves the preempted one Ready in the ready
  queue.
\<close>

theorem srtf_preempts_before_selection:
  "(should_preempt s (ready_queue s) \<longleftrightarrow>
      (\<exists>c. current_process s = Some c
         \<and> (\<exists>q \<in> set (ready_queue s). remaining_time (procs s q) < remaining_time (procs s c))))
   \<and> (\<forall>c. current_process s = Some c
         \<and> (\<exists>q \<in> set (ready_queue s). remaining_time (procs s q) < remaining_time (procs s c)) \<longrightarrow>
         should_preempt (before_schedule s) (ready_queue (before_schedule s))
       \<and> state (procs (preempt_phase (before_schedule s)) c) = Ready
       \<and> c \<in> set (ready_queue (preempt_phase (before_schedule s)))
       \<and> current_process (preempt_phase (before_schedule s)) = None
       \<and> (\<exists>n. current_process (schedule_process (before_schedule s)) = Some n \<and> n \<noteq> c
              \<and> remaining_time (procs s n) < remaining_time (procs s c))
       \<and> c \<in> set (ready_queue (schedule_process (before_schedule s)))
       \<and> state (procs (schedule_process (before_schedule s)) c) = Ready)"
proof (intro conjI allI impI)
  show "should_preempt s (ready_queue s) \<longleftrightarrow>
      (\<exists>c. current_process s = Some c
         \<and> (\<exists>q \<in> set (ready_queue s). remaining_time (procs s q) < remaining_time (procs s c)))"
    by (rule should_preempt_iff)
next
  fix c
  assume "current_process s = Some c
         \<and> (\<exists>q \<in> set (ready_queue s). remaining_time (procs s q) < remaining_time (procs s c))"
  then obtain q where cur: "current_process s = Some c" and q: "q \<in> set (ready_queue s)"
    and less: "remaining_time (procs s q) < remaining_time (procs s c)" by auto
  let ?m = "before_schedule s"
  have rem: "remaining_time (procs ?m x) = remaining_time (procs s x)" for x
    using before_schedule_quiet [of s] by (simp add: quiet_def)
  from before_schedule_admits [of s] cur q
  have cur': "current_process ?m = Some c" and q': "q \<in> set (ready_queue ?m)"
    by (auto simp: admits_def)
  from less have less': "remaining_time (procs ?m q) < remaining_time (procs ?m c)"
    by (simp add: rem)
  note facts = schedule_preempts [OF cur' q' less']
  show "should_preempt ?m (ready_queue ?m)" by (rule facts(1))
  show "state (procs (preempt_phase ?m) c) = Ready" by (rule facts(2))
  show "c \<in> set (ready_queue (preempt_phase ?m))" by (rule facts(3))
  show "current_process (preempt_phase ?m) = None" by (rule facts(4))
  from facts(5) show "\<exists>n. current_process (schedule_process ?m) = Some n \<and> n \<noteq> c
              \<and> remaining_time (procs s n) < remaining_time (procs s c)"
    by (simp add: rem)
  show "c \<in> set (ready_queue (schedule_process ?m))" by (rule facts(6))
  show "state (procs (schedule_process ?m) c) = Ready" by (rule facts(7))
qed

theorem srtf_preempts_before_selection_witness:
  "current_process ex_srtf = Some 0
   \<and> 1 \<in> set (ready_queue ex_srtf)
   \<and> remaining_time (procs ex_srtf 1) < remaining_time (procs ex_srtf 0)
   \<and> should_preempt ex_srtf (ready_queue ex_srtf)
   \<and> state (procs (preempt_phase (before_schedule ex_srtf)) 0) = Ready
   \<and> 0 \<in> set (ready_queue (preempt_phase (before_schedule ex_srtf)))
   \<and> current_process (preempt_phase (before_schedule ex_srtf)) = None
   \<and> 0 \<in> set (ready_queue (schedule_process (before_schedule ex_srtf)))
   \<and> state (procs (schedule_process (before_schedule ex_srtf)) 0) = Ready"
proof -
  have hyp: "current_process ex_srtf = Some 0 \<and> 1 \<in> set (ready_queue ex_srtf)
      \<and> remaining_time (procs ex_srtf 1) < remaining_time (procs ex_srtf 0)"
    by code_simp
  from srtf_preempts_before_selection [of ex_srtf] hyp show ?thesis by blast
qed

section \<open>Reachable states\<close>

text \<open>
  The states at the top of the loop of \<^verbatim>\<open>run\<close>, started on freshly loaded
  processes: a pass is taken while fewer processes than were loaded have terminated
  and the clock is below the bound.
\<close>

inductive reachable ::
  "(int \<times> int \<times> int \<times> int) list \<Rightarrow> (int \<times> int \<times> int) list \<Rightarrow> int \<Rightarrow> sim \<Rightarrow> bool"
  for rows pcfg degree where
  start: "reachable rows pcfg degree (initial rows pcfg degree)"
| pass: "reachable rows pcfg degree s \<Longrightarrow> length (terminated_queue s) < length rows \<Longrightarrow>
     clock s < 1000 \<Longrightarrow> reachable rows pcfg degree (tick s)"

lemma reachable_inv: "reachable rows pcfg degree s \<Longrightarrow> inv_core s"
  by (induction rule: reachable.induct) (simp_all add: initial_inv tick_inv)

lemma reachable_loaded:
  "reachable rows pcfg degree s \<Longrightarrow> loaded_processes s = [0 ..< length rows]"
  by (induction rule: reachable.induct) (simp_all add: initial_def tick_frame)

text \<open>\<^verbatim>\<open>run\<close> on freshly loaded processes ends in a reachable state.\<close>

lemma run_loop_reachable:
  "reachable rows pcfg degree s \<Longrightarrow> n = length rows \<Longrightarrow>
     reachable rows pcfg degree (fst (run_loop s n))"
proof (induction s n rule: run_loop.induct)
  case (1 s n)
  show ?case
  proof (cases "length (terminated_queue s) < n \<and> \<not> clock s \<ge> 1000")
    case False
    then have "run_loop s n = (s, length (terminated_queue s) < n)"
      by (auto simp: run_loop.simps [of s n])
    with "1.prems" show ?thesis by simp
  next
    case True
    with "1.prems" have "reachable rows pcfg degree (tick s)"
      by (intro reachable.pass) auto
    with True "1.IH" "1.prems" have "reachable rows pcfg degree (fst (run_loop (tick s) n))"
      by simp
    with True show ?thesis by (simp add: run_loop.simps [of s n])
  qed
qed

lemma run_reachable: "reachable rows pcfg degree (fst (run (initial rows pcfg degree)))"
  unfolding run_def
  by (rule run_loop_reachable [OF reachable.start]) (simp add: initial_def)

text \<open>
  \<open>ex_four\<close>: three 50K processes with bursts 1, 3 and 4 and a 500K process that fits
  nowhere, all arriving at time 0, and three partitions of 100K. After two passes the
  first process has terminated, the second is executing, the third is ready and the
  fourth is suspended.
\<close>

definition ex_four :: sim where
  "ex_four = initial [(1, 50, 0, 1), (2, 50, 0, 3), (3, 50, 0, 4), (4, 500, 0, 2)]
     [(1, 100, 0), (2, 100, 100), (3, 100, 200)] 5"

lemma reachable_ex_four:
  "reachable [(1, 50, 0, 1), (2, 50, 0, 3), (3, 50, 0, 4), (4, 500, 0, 2)]
     [(1, 100, 0), (2, 100, 100), (3, 100, 200)] 5 (tick (tick ex_four))"
proof -
  have a: "length (terminated_queue ex_four) < 4 \<and> clock ex_four < 1000"
    by code_simp
  have b: "length (terminated_queue (tick ex_four)) < 4 \<and> clock (tick ex_four) < 1000"
    by code_simp
  show ?thesis
    unfolding ex_four_def
    using a b reachable.pass [OF reachable.pass [OF reachable.start]]
    by (simp add: ex_four_def)
qed


text \<open>
  C7. In every reachable state the ready queue, the suspended queue, the terminated
  queue and the current process are pairwise disjoint, and no queue holds a process
  twice.
\<close>

theorem queues_disjoint:
  assumes "reachable rows pcfg degree s"
  shows "set (ready_queue s) \<inter> set (suspended_queue s) = {}
    \<and> set (ready_queue s) \<inter> set (terminated_queue s) = {}
    \<and> set (suspended_queue s) \<inter> set (terminated_queue s) = {}
    \<and> (\<forall>c. current_process s = Some c \<longrightarrow>
          c \<notin> set (ready_queue s) \<and> c \<notin> set (suspended_queue s) \<and> c \<notin> set (terminated_queue s))
    \<and> distinct (ready_queue s) \<and> distinct (suspended_queue s) \<and> distinct (terminated_queue s)"
  using inv_coreD(1) [OF reachable_inv [OF assms]]
  by (auto simp: running_def)

theorem queues_disjoint_witness:
  "current_process (tick (tick ex_four)) = Some 1
   \<and> ready_queue (tick (tick ex_four)) = [2]
   \<and> suspended_queue (tick (tick ex_four)) = [3]
   \<and> terminated_queue (tick (tick ex_four)) = [0]
   \<and> set (ready_queue (tick (tick ex_four))) \<inter> set (suspended_queue (tick (tick ex_four))) = {}
   \<and> set (ready_queue (tick (tick ex_four))) \<inter> set (terminated_queue (tick (tick ex_four))) = {}
   \<and> set (suspended_queue (tick (tick ex_four))) \<inter> set (terminated_queue (tick (tick ex_four))) = {}
   \<and> 1 \<notin> set (ready_queue (tick (tick ex_four)))"
proof -
  have vals: "current_process (tick (tick ex_four)) = Some 1
   \<and> ready_queue (tick (tick ex_four)) = [2]
   \<and> suspended_queue (tick (tick ex_four)) = [3]
   \<and> terminated_queue (tick (tick ex_four)) = [0]"
    by code_simp
  from queues_disjoint [OF reachable_ex_four] vals show ?thesis by blast
qed

section \<open>Remaining time and first execution\<close>

lemma free_process_proc:
  "state (procs (free_process s c) p) = state (procs s p)"
  "remaining_time (procs (free_process s c) p) = remaining_time (procs s p)"
  "first_execution_time (procs (free_process s c) p) = first_execution_time (procs s p)"
  "finish_time (procs (free_process s c) p) = finish_time (procs s p)"
  "turnaround_time (procs (free_process s c) p) = turnaround_time (procs s p)"
  "wait_time (procs (free_process s c) p) = wait_time (procs s p)"
  "arrival_time (procs (free_process s c) p) = arrival_time (procs s p)"
  by (simp_all add: free_process_def free_def upd_proc_def upd_part_def Let_def split: option.splits)

lemma sim_execute_tick_first_execution_time:
  "first_execution_time (procs (sim_execute_tick s) p) = first_execution_time (procs s p)"
  by (simp add: sim_execute_tick_eq free_process_proc Let_def split: option.splits)

lemma tick_first_execution_time:
  assumes "first_execution_time (procs s p) = Some f"
  shows "first_execution_time (procs (tick s) p) = Some f"
proof -
  from before_execute_quiet [of s] assms
  have "first_execution_time (procs (before_execute s) p) = Some f"
    by (simp add: quiet_def)
  then show ?thesis
    by (simp add: tick_def Let_def sim_execute_tick_first_execution_time)
qed

lemma ticks_first_execution_time:
  "first_execution_time (procs s p) = Some f \<Longrightarrow>
     first_execution_time (procs ((tick ^^ k) s) p) = Some f"
  by (induction k) (simp_all add: tick_first_execution_time)

text \<open>Remaining times: zero in the terminated queue, positive outside it.\<close>

definition rem_inv :: "sim \<Rightarrow> bool" where
  "rem_inv s \<longleftrightarrow>
     (\<forall>p \<in> set (loaded_processes s).
        (p \<in> set (terminated_queue s) \<longrightarrow> remaining_time (procs s p) = 0)
      \<and> (p \<notin> set (terminated_queue s) \<longrightarrow> 0 < remaining_time (procs s p)))"

lemma rem_inv_quiet: "quiet s t \<Longrightarrow> rem_inv s \<Longrightarrow> rem_inv t"
  by (simp add: quiet_def rem_inv_def)

lemma sim_execute_tick_rem_inv:
  assumes inv: "inv_core s" and rem: "rem_inv s"
  shows "rem_inv (sim_execute_tick s)"
proof (cases "current_process s")
  case None
  with rem show ?thesis by (simp add: sim_execute_tick_eq)
next
  case (Some c)
  from inv_coreD(1) [OF inv] Some have notin: "c \<notin> set (terminated_queue s)"
    by (auto simp: running_def)
  show ?thesis
  proof (cases "remaining_time (procs s c) - 1 \<le> 0")
    case False
    with Some rem notin show ?thesis
      by (auto simp: sim_execute_tick_eq rem_inv_def)
  next
    case True
    from inv_coreD(3) [OF inv, of c] Some obtain i where "partition (procs s c) = Some i"
      by auto
    with inv_coreD(2) [OF inv, of c i]
    have i: "partition (procs s c) = Some i" "process (parts s i) = Some c" by simp_all
    have fin: "remaining_time (finished_proc s c) = remaining_time (procs s c) - 1"
      by (simp add: finished_proc_def)
    from rem notin True Some show ?thesis
      unfolding sim_execute_tick_finish [OF Some True i]
      by (auto simp: rem_inv_def fin)
  qed
qed

lemma tick_rem_inv:
  assumes "inv_core s" and "rem_inv s"
  shows "rem_inv (tick s)"
proof -
  from assms(2) before_execute_quiet [of s] have "rem_inv (before_execute s)"
    by (rule rem_inv_quiet [rotated])
  with assms(1) have "rem_inv (sim_execute_tick (before_execute s))"
    by (intro sim_execute_tick_rem_inv before_execute_inv)
  then show ?thesis
    by (simp add: tick_def Let_def rem_inv_def)
qed

lemma initial_rem_inv:
  assumes "\<forall>r \<in> set rows. 0 < snd (snd (snd r))"
  shows "rem_inv (initial rows pcfg degree)"
proof -
  have "0 < remaining_time (new_Process (rows ! p))" if "p < length rows" for p
    using assms that by (auto simp: new_Process_def split: prod.splits dest!: nth_mem)
  then show ?thesis
    by (simp add: rem_inv_def initial_def)
qed

lemma reachable_rem_inv:
  assumes "\<forall>r \<in> set rows. 0 < snd (snd (snd r))"
  shows "reachable rows pcfg degree s \<Longrightarrow> rem_inv s"
proof (induction rule: reachable.induct)
  case start
  from assms show ?case by (rule initial_rem_inv)
next
  case (pass s)
  then show ?case by (simp add: tick_rem_inv reachable_inv)
qed

text \<open>
  C8. When every input process has a positive burst time, in every reachable state
  every loaded process has a remaining time of at least 0, and its remaining time is
  0 exactly when its state is Terminated. A first execution time that is set is kept,
  with its value, by every step of a pass (in any state) and by any number of passes.
\<close>

theorem remaining_time_and_first_execution:
  assumes "\<forall>r \<in> set rows. 0 < snd (snd (snd r))"
    and "reachable rows pcfg degree s"
  shows "(\<forall>p \<in> set (loaded_processes s).
            0 \<le> remaining_time (procs s p)
          \<and> (remaining_time (procs s p) = 0 \<longleftrightarrow> state (procs s p) = Terminated))
       \<and> (\<forall>t p f. first_execution_time (procs t p) = Some f \<longrightarrow>
            first_execution_time (procs (arrive_new_processes t) p) = Some f
          \<and> first_execution_time (procs (try_load_suspended t) p) = Some f
          \<and> first_execution_time (procs (schedule_process t) p) = Some f
          \<and> first_execution_time (procs (update_wait_times t) p) = Some f
          \<and> first_execution_time (procs (sim_execute_tick t) p) = Some f
          \<and> (\<forall>k. first_execution_time (procs ((tick ^^ k) t) p) = Some f))"
proof (intro conjI ballI allI impI)
  fix p
  assume p: "p \<in> set (loaded_processes s)"
  from reachable_rem_inv [OF assms] p
  have r: "(p \<in> set (terminated_queue s) \<longrightarrow> remaining_time (procs s p) = 0)
      \<and> (p \<notin> set (terminated_queue s) \<longrightarrow> 0 < remaining_time (procs s p))"
    by (simp add: rem_inv_def)
  then show "0 \<le> remaining_time (procs s p)" by auto
  from r inv_coreD(7) [OF reachable_inv [OF assms(2)], of p]
  show "remaining_time (procs s p) = 0 \<longleftrightarrow> state (procs s p) = Terminated" by auto
next
  fix t :: sim and p f
  assume f: "first_execution_time (procs t p) = Some f"
  from f arrive_new_processes_quiet [of t]
  show "first_execution_time (procs (arrive_new_processes t) p) = Some f" by (simp add: quiet_def)
  from f try_load_suspended_quiet [of t]
  show "first_execution_time (procs (try_load_suspended t) p) = Some f" by (simp add: quiet_def)
  from f schedule_process_quiet [of t]
  show "first_execution_time (procs (schedule_process t) p) = Some f" by (simp add: quiet_def)
  from f update_wait_times_quiet [of t]
  show "first_execution_time (procs (update_wait_times t) p) = Some f" by (simp add: quiet_def)
  from f show "first_execution_time (procs (sim_execute_tick t) p) = Some f"
    by (simp add: sim_execute_tick_first_execution_time)
  fix k
  from f show "first_execution_time (procs ((tick ^^ k) t) p) = Some f"
    by (rule ticks_first_execution_time)
qed

text \<open>
  The four-process example after two passes: process 0 has terminated with remaining
  time 0, process 1 is executing with a positive remaining time and keeps the first
  execution time 1 over the next two passes.
\<close>

theorem remaining_time_and_first_execution_witness:
  "(0::int) < 1 \<and> (0::int) < 3 \<and> (0::int) < 4 \<and> (0::int) < 2
   \<and> loaded_processes (tick (tick ex_four)) = [0, 1, 2, 3]
   \<and> remaining_time (procs (tick (tick ex_four)) 0) = 0
   \<and> state (procs (tick (tick ex_four)) 0) = Terminated
   \<and> state (procs (tick (tick ex_four)) 1) = Executing
   \<and> 0 \<le> remaining_time (procs (tick (tick ex_four)) 1)
   \<and> remaining_time (procs (tick (tick ex_four)) 1) \<noteq> 0
   \<and> first_execution_time (procs (tick (tick ex_four)) 1) = Some 1
   \<and> first_execution_time (procs ((tick ^^ 2) (tick (tick ex_four))) 1) = Some 1"
proof -
  have pos: "\<forall>r \<in> set [(1, 50, 0, 1), (2, 50, 0, 3), (3, 50, 0, 4), (4::int, 500::int, 0::int, 2::int)].
      0 < snd (snd (snd r))"
    by simp
  have vals: "loaded_processes (tick (tick ex_four)) = [0, 1, 2, 3]
      \<and> state (procs (tick (tick ex_four)) 0) = Terminated
      \<and> state (procs (tick (tick ex_four)) 1) = Executing
      \<and> first_execution_time (procs (tick (tick ex_four)) 1) = Some 1"
    by code_simp
  from remaining_time_and_first_execution [OF pos reachable_ex_four] vals
  show ?thesis by auto
qed

section \<open>Process and partition references\<close>

text \<open>
  The two references agree when a process names a partition exactly when that
  partition names the process, and every process that is Executing or in the ready
  queue names a partition.
\<close>

definition consistent :: "sim \<Rightarrow> bool" where
  "consistent s \<longleftrightarrow>
     (\<forall>p i. partition (procs s p) = Some i \<longleftrightarrow> process (parts s i) = Some p)
   \<and> (\<forall>p. state (procs s p) = Executing \<or> p \<in> set (ready_queue s) \<longrightarrow>
          (\<exists>i. partition (procs s p) = Some i))"

lemma inv_core_consistent:
  assumes "inv_core s"
  shows "consistent s"
  unfolding consistent_def
proof (intro conjI allI impI)
  fix p i
  show "partition (procs s p) = Some i \<longleftrightarrow> process (parts s i) = Some p"
    by (rule inv_coreD(2) [OF assms])
next
  fix p
  assume "state (procs s p) = Executing \<or> p \<in> set (ready_queue s)"
  with inv_coreD(4) [OF assms, of p] have "p \<in> set (ready_queue s) \<or> current_process s = Some p"
    by auto
  with inv_coreD(3) [OF assms, of p] show "\<exists>i. partition (procs s p) = Some i" by auto
qed

lemma before_schedule_inv: "inv_core s \<Longrightarrow> inv_core (before_schedule s)"
proof -
  assume "inv_core s"
  moreover have "inv_core (s\<lparr>new_process_arrived := False, process_finished := False\<rparr>) = inv_core s"
    by (rule inv_core_cong) simp_all
  ultimately have "inv_core (s\<lparr>new_process_arrived := False, process_finished := False\<rparr>)"
    by simp
  then show ?thesis
    unfolding before_schedule_def
    by (intro try_load_suspended_inv arrive_new_processes_inv)
qed

lemma arrivals_inv:
  "inv_core s \<Longrightarrow>
     inv_core (arrive_new_processes (s\<lparr>new_process_arrived := False, process_finished := False\<rparr>))"
proof -
  assume "inv_core s"
  moreover have "inv_core (s\<lparr>new_process_arrived := False, process_finished := False\<rparr>) = inv_core s"
    by (rule inv_core_cong) simp_all
  ultimately show ?thesis by (simp add: arrive_new_processes_inv)
qed

lemma preempt_phase_partitions:
  "partition (procs (preempt_phase m) p) = partition (procs m p)"
  "parts (preempt_phase m) = parts m"
  by (simp_all add: preempt_phase_eq split: option.splits)

lemma freed_only_on_termination:
  assumes inv: "inv_core s"
    and occ: "process (parts s i) = Some p"
    and free: "process (parts (tick s) i) = None"
  shows "state (procs (tick s) p) = Terminated \<and> p \<in> set (terminated_queue (tick s))"
proof -
  let ?m = "before_execute s"
  from before_execute_quiet [of s] occ have occm: "process (parts ?m i) = Some p"
    by (simp add: quiet_def)
  from inv have invm: "inv_core ?m" by (rule before_execute_inv)
  from free have freem: "process (parts (sim_execute_tick ?m) i) = None"
    by (simp add: tick_def Let_def)
  show ?thesis
  proof (cases "current_process ?m")
    case None
    with occm freem show ?thesis by (simp add: sim_execute_tick_eq)
  next
    case (Some c)
    show ?thesis
    proof (cases "remaining_time (procs ?m c) - 1 \<le> 0")
      case False
      with Some occm freem show ?thesis by (simp add: sim_execute_tick_eq)
    next
      case True
      from inv_coreD(3) [OF invm, of c] Some obtain j where "partition (procs ?m c) = Some j"
        by auto
      with inv_coreD(2) [OF invm, of c j]
      have j: "partition (procs ?m c) = Some j" "process (parts ?m j) = Some c" by simp_all
      note eq = sim_execute_tick_finish [OF Some True j]
      from occm freem have "i = j"
        unfolding eq by (auto split: if_splits)
      with occm j have "p = c" by simp
      then show ?thesis
        by (simp add: tick_def Let_def eq finished_proc_def)
    qed
  qed
qed

text \<open>
  C10. In every reachable state, and after every step of the pass that starts from it
  (arrivals, re-admission, the preemption check, the selection, the wait counters, the
  execution step, the clock), the process and partition references agree and every
  process that is Executing or in the ready queue holds a partition. The preemption
  check changes no partition reference. A partition that is occupied before a pass
  and free after it was occupied by a process that the pass terminated.
\<close>

theorem references_consistent:
  assumes "reachable rows pcfg degree s"
  shows "consistent s
    \<and> consistent (arrive_new_processes (s\<lparr>new_process_arrived := False, process_finished := False\<rparr>))
    \<and> consistent (before_schedule s)
    \<and> consistent (preempt_phase (before_schedule s))
    \<and> consistent (schedule_process (before_schedule s))
    \<and> consistent (before_execute s)
    \<and> consistent (sim_execute_tick (before_execute s))
    \<and> consistent (tick s)
    \<and> (\<forall>p. partition (procs (preempt_phase (before_schedule s)) p)
             = partition (procs (before_schedule s) p))
    \<and> parts (preempt_phase (before_schedule s)) = parts (before_schedule s)
    \<and> (\<forall>i p. process (parts s i) = Some p \<and> process (parts (tick s) i) = None \<longrightarrow>
          state (procs (tick s) p) = Terminated \<and> p \<in> set (terminated_queue (tick s)))"
proof -
  from assms have inv: "inv_core s" by (rule reachable_inv)
  then have m: "inv_core (before_schedule s)" by (rule before_schedule_inv)
  from inv have e: "inv_core (before_execute s)" by (rule before_execute_inv)
  have "consistent s" using inv by (rule inv_core_consistent)
  moreover have "consistent (arrive_new_processes (s\<lparr>new_process_arrived := False, process_finished := False\<rparr>))"
    using inv by (intro inv_core_consistent arrivals_inv)
  moreover have "consistent (before_schedule s)" using m by (rule inv_core_consistent)
  moreover have "consistent (preempt_phase (before_schedule s))"
    using m by (intro inv_core_consistent preempt_phase_inv)
  moreover have "consistent (schedule_process (before_schedule s))"
    using m by (intro inv_core_consistent schedule_process_inv)
  moreover have "consistent (before_execute s)" using e by (rule inv_core_consistent)
  moreover have "consistent (sim_execute_tick (before_execute s))"
    using e by (intro inv_core_consistent sim_execute_tick_inv)
  moreover have "consistent (tick s)" using inv by (intro inv_core_consistent tick_inv)
  moreover have "\<forall>i p. process (parts s i) = Some p \<and> process (parts (tick s) i) = None \<longrightarrow>
          state (procs (tick s) p) = Terminated \<and> p \<in> set (terminated_queue (tick s))"
    using freed_only_on_termination [OF inv] by blast
  ultimately show ?thesis by (simp add: preempt_phase_partitions)
qed

lemma reachable_ex_one: "reachable [(1, 50, 0, 2)] [(1, 100, 0)] 5 (tick ex_one)"
proof -
  have "length (terminated_queue ex_one) < 1 \<and> clock ex_one < 1000"
    by code_simp
  with reachable.pass [OF reachable.start, of "[(1, 50, 0, 2)]" "[(1, 100, 0)]" 5]
  show ?thesis by (simp add: ex_one_def)
qed

text \<open>
  The one-process example after one pass: the process is executing in partition 0;
  the next pass terminates it and frees the partition.
\<close>

theorem references_consistent_witness:
  "state (procs (tick ex_one) 0) = Executing
   \<and> partition (procs (tick ex_one) 0) = Some 0
   \<and> process (parts (tick ex_one) 0) = Some 0
   \<and> process (parts (tick (tick ex_one)) 0) = None
   \<and> state (procs (tick (tick ex_one)) 0) = Terminated
   \<and> 0 \<in> set (terminated_queue (tick (tick ex_one)))
   \<and> consistent (tick ex_one) \<and> consistent (tick (tick ex_one))"
proof -
  have vals: "state (procs (tick ex_one) 0) = Executing
      \<and> partition (procs (tick ex_one) 0) = Some 0
      \<and> process (parts (tick ex_one) 0) = Some 0
      \<and> process (parts (tick (tick ex_one)) 0) = None"
    by code_simp
  from references_consistent [OF reachable_ex_one] vals show ?thesis by blast
qed

section \<open>Completion\<close>

text \<open>
  C4. In the pass that starts from a reachable state with clock \<open>t\<close>, a process that
  enters the execution step as the current process with a remaining time of at most 1
  has its first execution time \<open>f\<close> set, and after the pass it is Terminated with
  \<open>finish_time = t + 1\<close>, \<open>turnaround_time = finish_time - arrival_time\<close> and
  \<open>wait_time = f - arrival_time\<close> whatever the wait counter was before; its partition
  is free with no fragmentation, it holds no partition, it is in the terminated queue
  and the CPU is idle.
\<close>

theorem finished_process_statistics:
  assumes "reachable rows pcfg degree s"
    and "current_process (before_execute s) = Some c"
    and "remaining_time (procs (before_execute s) c) \<le> 1"
  shows "\<exists>f. first_execution_time (procs (before_execute s) c) = Some f
    \<and> remaining_time (procs (tick s) c) = remaining_time (procs (before_execute s) c) - 1
    \<and> state (procs (tick s) c) = Terminated
    \<and> finish_time (procs (tick s) c) = clock s + 1
    \<and> turnaround_time (procs (tick s) c) = finish_time (procs (tick s) c) - arrival_time (procs (tick s) c)
    \<and> wait_time (procs (tick s) c) = f - arrival_time (procs (tick s) c)
    \<and> partition (procs (tick s) c) = None
    \<and> (\<exists>i. partition (procs (before_execute s) c) = Some i
            \<and> process (parts (before_execute s) i) = Some c
            \<and> process (parts (tick s) i) = None
            \<and> internal_fragmentation (parts (tick s) i) = 0)
    \<and> c \<in> set (terminated_queue (tick s))
    \<and> current_process (tick s) = None"
proof -
  let ?m = "before_execute s"
  from assms(1) have "inv_core s" by (rule reachable_inv)
  then have invm: "inv_core ?m" by (rule before_execute_inv)
  from inv_coreD(8) [OF invm assms(2)] obtain f where f: "first_execution_time (procs ?m c) = Some f"
    by auto
  from inv_coreD(3) [OF invm, of c] assms(2) obtain i where "partition (procs ?m c) = Some i"
    by auto
  with inv_coreD(2) [OF invm, of c i]
  have i: "partition (procs ?m c) = Some i" "process (parts ?m i) = Some c" by simp_all
  from assms(3) have fin: "remaining_time (procs ?m c) - 1 \<le> 0" by simp
  note eq = sim_execute_tick_finish [OF assms(2) fin i]
  have clk: "clock ?m = clock s"
    using before_execute_quiet [of s] by (simp add: quiet_def)
  from f i clk show ?thesis
    by (simp add: tick_def Let_def eq finished_proc_def calculate_statistics_def)
qed

text \<open>The one-process example: its second pass (clock 1) finishes the process at time 2.\<close>

theorem finished_process_statistics_witness:
  "current_process (before_execute (tick ex_one)) = Some 0
   \<and> remaining_time (procs (before_execute (tick ex_one)) 0) \<le> 1
   \<and> clock (tick ex_one) = 1
   \<and> arrival_time (procs (tick (tick ex_one)) 0) = 0
   \<and> first_execution_time (procs (before_execute (tick ex_one)) 0) = Some 0
   \<and> state (procs (tick (tick ex_one)) 0) = Terminated
   \<and> finish_time (procs (tick (tick ex_one)) 0) = 2
   \<and> turnaround_time (procs (tick (tick ex_one)) 0) = 2
   \<and> wait_time (procs (tick (tick ex_one)) 0) = 0
   \<and> partition (procs (tick (tick ex_one)) 0) = None
   \<and> 0 \<in> set (terminated_queue (tick (tick ex_one)))
   \<and> current_process (tick (tick ex_one)) = None"
proof -
  have hyp: "current_process (before_execute (tick ex_one)) = Some 0"
    "remaining_time (procs (before_execute (tick ex_one)) 0) \<le> 1"
    by code_simp+
  have vals: "clock (tick ex_one) = 1 \<and> arrival_time (procs (tick (tick ex_one)) 0) = 0
      \<and> first_execution_time (procs (before_execute (tick ex_one)) 0) = Some 0"
    by code_simp
  from finished_process_statistics [OF reachable_ex_one hyp] vals
  show ?thesis using hyp by auto
qed

section \<open>The admission rule\<close>

text \<open>
  \<open>ex_deg1\<close>: two 40K processes arriving together, two partitions that can hold
  them, and a degree of multiprogramming of 1.
\<close>

definition ex_deg1 :: sim where
  "ex_deg1 = initial [(1, 40, 0, 3), (2, 40, 0, 2)] [(1, 100, 0), (2, 60, 100)] 1"

text \<open>
  C2 as stated fails on the moment of the count. In \<open>ex_deg1\<close> the resident count
  before the admission decisions of the first pass is 0, below the degree 1, so by the
  claim the allocator is called for both arrivals and the second one, for which a
  free partition is left and allocation succeeds, ends in the ready queue. The code
  counts again before each process: the second arrival sees the first one in the
  ready queue and is suspended without the allocator being called.
\<close>

theorem admission_count_counterexample:
  "current_dom ex_deg1 = 0
   \<and> degree_of_multiprogramming ex_deg1 = 1
   \<and> all_processes ex_deg1 = [0, 1]
   \<and> ready_queue (arrive_new_processes ex_deg1) = [0]
   \<and> suspended_queue (arrive_new_processes ex_deg1) = [1]
   \<and> state (procs (arrive_new_processes ex_deg1) 1) = Suspended
   \<and> partition (procs (arrive_new_processes ex_deg1) 1) = None
   \<and> snd (allocate_process (arrive_new_processes ex_deg1) 1)"
  by code_simp

text \<open>
  The arrivals of a pass are the processes of \<^verbatim>\<open>all_processes\<close> whose arrival time
  is the clock, in list order; those with a later arrival time stay.
\<close>

lemma arrive_scan_lists:
  "snd (arrive_scan s ps a r) =
     (a @ filter (\<lambda>p. arrival_time (procs s p) = clock s) ps,
      r @ filter (\<lambda>p. clock s < arrival_time (procs s p)) ps)"
proof (induction ps arbitrary: s a r)
  case Nil
  show ?case by simp
next
  case (Cons p ps)
  let ?s = "upd_proc s p (\<lambda>pr. pr\<lparr>state := New\<rparr>)\<lparr>new_process_arrived := True\<rparr>"
  have same: "arrival_time (procs ?s q) = arrival_time (procs s q)" "clock ?s = clock s" for q
    by (simp_all add: upd_proc_def)
  have "snd (arrive_scan ?s ps a' r') =
     (a' @ filter (\<lambda>p. arrival_time (procs s p) = clock s) ps,
      r' @ filter (\<lambda>p. clock s < arrival_time (procs s p)) ps)" for a' r'
    using Cons.IH [of ?s a' r'] by (simp only: same)
  with Cons.IH [of s] show ?case
    by simp
qed

lemma arrive_new_processes_eq:
  "arrive_new_processes s =
     load_each
       ((fst (arrive_scan s (all_processes s) [] []))
          \<lparr>all_processes := filter (\<lambda>p. clock s < arrival_time (procs s p)) (all_processes s)\<rparr>)
       (filter (\<lambda>p. arrival_time (procs s p) = clock s) (all_processes s))"
  using arrive_scan_lists [of s "all_processes s" "[]" "[]"]
  by (cases "arrive_scan s (all_processes s) [] []") (simp add: arrive_new_processes_def)

text \<open>
  C2, as the code has it. The resident count \<open>len(ready) + (1 if executing else 0)\<close>
  is taken anew immediately before each process is considered. For any state and
  process, \<^verbatim>\<open>_try_load_to_memory\<close> does this: if the count is at least the degree, the
  process becomes Suspended and is in the suspended queue, and neither the partitions
  nor any other process nor its own partition reference change (the allocator is not
  called); otherwise the allocator is called, and on success the process is Ready in
  the ready queue and out of the suspended queue, on failure it is Suspended in the
  suspended queue. The processes whose arrival time is the clock are loaded by
  \<^verbatim>\<open>_try_load_to_memory\<close> one after the other in list order; and in every pass from a reachable state \<^verbatim>\<open>_try_load_suspended\<close> does what applying
  the same rule to the suspended processes in queue order does, stopping when the
  count reaches the degree.
\<close>

theorem admission_rule:
  assumes "reachable rows pcfg degree s0"
  shows "(\<forall>s p.
       (degree_of_multiprogramming s \<le> current_dom s \<longrightarrow>
          state (procs (try_load_to_memory s p) p) = Suspended
        \<and> p \<in> set (suspended_queue (try_load_to_memory s p))
        \<and> ready_queue (try_load_to_memory s p) = ready_queue s
        \<and> parts (try_load_to_memory s p) = parts s
        \<and> partition (procs (try_load_to_memory s p) p) = partition (procs s p)
        \<and> (\<forall>q. q \<noteq> p \<longrightarrow> procs (try_load_to_memory s p) q = procs s q))
     \<and> (current_dom s < degree_of_multiprogramming s \<and> snd (allocate_process s p) \<longrightarrow>
          p \<in> set (ready_queue (try_load_to_memory s p))
        \<and> state (procs (try_load_to_memory s p) p) = Ready
        \<and> procs (try_load_to_memory s p) = procs (fst (allocate_process s p))
        \<and> parts (try_load_to_memory s p) = parts (fst (allocate_process s p))
        \<and> suspended_queue (try_load_to_memory s p) =
            (if p \<in> set (suspended_queue s) then remove1 p (suspended_queue s)
             else suspended_queue s))
     \<and> (current_dom s < degree_of_multiprogramming s \<and> \<not> snd (allocate_process s p) \<longrightarrow>
          p \<in> set (suspended_queue (try_load_to_memory s p))
        \<and> state (procs (try_load_to_memory s p) p) = Suspended
        \<and> ready_queue (try_load_to_memory s p) = ready_queue s
        \<and> parts (try_load_to_memory s p) = parts s))
   \<and> (\<forall>s. arrive_new_processes s =
         load_each
           ((fst (arrive_scan s (all_processes s) [] []))
              \<lparr>all_processes := filter (\<lambda>p. clock s < arrival_time (procs s p)) (all_processes s)\<rparr>)
           (filter (\<lambda>p. arrival_time (procs s p) = clock s) (all_processes s)))
   \<and> try_load_suspended (arrive_new_processes (s0\<lparr>new_process_arrived := False, process_finished := False\<rparr>))
       = readmit (arrive_new_processes (s0\<lparr>new_process_arrived := False, process_finished := False\<rparr>))
           (suspended_queue (arrive_new_processes (s0\<lparr>new_process_arrived := False, process_finished := False\<rparr>)))"
proof (intro conjI allI)
  fix s :: sim and p
  show "degree_of_multiprogramming s \<le> current_dom s \<longrightarrow>
          state (procs (try_load_to_memory s p) p) = Suspended
        \<and> p \<in> set (suspended_queue (try_load_to_memory s p))
        \<and> ready_queue (try_load_to_memory s p) = ready_queue s
        \<and> parts (try_load_to_memory s p) = parts s
        \<and> partition (procs (try_load_to_memory s p) p) = partition (procs s p)
        \<and> (\<forall>q. q \<noteq> p \<longrightarrow> procs (try_load_to_memory s p) q = procs s q)"
    by (simp add: try_load_to_memory_eq suspend_def upd_proc_def Let_def)
  show "current_dom s < degree_of_multiprogramming s \<and> snd (allocate_process s p) \<longrightarrow>
          p \<in> set (ready_queue (try_load_to_memory s p))
        \<and> state (procs (try_load_to_memory s p) p) = Ready
        \<and> procs (try_load_to_memory s p) = procs (fst (allocate_process s p))
        \<and> parts (try_load_to_memory s p) = parts (fst (allocate_process s p))
        \<and> suspended_queue (try_load_to_memory s p) =
            (if p \<in> set (suspended_queue s) then remove1 p (suspended_queue s)
             else suspended_queue s)"
    by (cases "find_best_fit s p")
      (simp_all add: try_load_to_memory_eq allocate_process_eq place_def)
  show "current_dom s < degree_of_multiprogramming s \<and> \<not> snd (allocate_process s p) \<longrightarrow>
          p \<in> set (suspended_queue (try_load_to_memory s p))
        \<and> state (procs (try_load_to_memory s p) p) = Suspended
        \<and> ready_queue (try_load_to_memory s p) = ready_queue s
        \<and> parts (try_load_to_memory s p) = parts s"
    by (cases "find_best_fit s p")
      (simp_all add: try_load_to_memory_eq allocate_process_eq suspend_def upd_proc_def Let_def)
next
  fix s :: sim
  show "arrive_new_processes s =
         load_each
           ((fst (arrive_scan s (all_processes s) [] []))
              \<lparr>all_processes := filter (\<lambda>p. clock s < arrival_time (procs s p)) (all_processes s)\<rparr>)
           (filter (\<lambda>p. arrival_time (procs s p) = clock s) (all_processes s))"
    by (rule arrive_new_processes_eq)
next
  let ?m = "arrive_new_processes (s0\<lparr>new_process_arrived := False, process_finished := False\<rparr>)"
  from assms have "inv_core s0" by (rule reachable_inv)
  then have m: "inv_core ?m" by (rule arrivals_inv)
  from inv_coreD(1) [OF m] have "distinct (suspended_queue ?m)"
    and "set (suspended_queue ?m) \<inter> set (ready_queue ?m) = {}"
    by auto
  moreover from inv_coreD(5) [OF m] have "\<forall>p \<in> set (suspended_queue ?m). state (procs ?m p) = Suspended"
    by blast
  ultimately show "try_load_suspended ?m = readmit ?m (suspended_queue ?m)"
    by (rule try_load_suspended_readmit)
qed

text \<open>
  The three outcomes of the rule and a re-admission: \<open>ex_full\<close> is \<open>ex_deg1\<close> with
  its first process loaded, so the second is suspended unseen; the first process of
  \<open>ex_deg1\<close> is allocated; the 500K process of \<open>ex_late\<close> fails allocation; and the
  third pass of the four-process example re-admits from its suspended queue.
\<close>

definition ex_full :: sim where
  "ex_full = try_load_to_memory ex_deg1 0"

theorem admission_rule_witness:
  "degree_of_multiprogramming ex_full \<le> current_dom ex_full
   \<and> state (procs (try_load_to_memory ex_full 1) 1) = Suspended
   \<and> 1 \<in> set (suspended_queue (try_load_to_memory ex_full 1))
   \<and> parts (try_load_to_memory ex_full 1) = parts ex_full
   \<and> current_dom ex_deg1 < degree_of_multiprogramming ex_deg1
   \<and> snd (allocate_process ex_deg1 0)
   \<and> 0 \<in> set (ready_queue (try_load_to_memory ex_deg1 0))
   \<and> state (procs (try_load_to_memory ex_deg1 0) 0) = Ready
   \<and> current_dom ex_late < degree_of_multiprogramming ex_late
   \<and> \<not> snd (allocate_process ex_late 0)
   \<and> 0 \<in> set (suspended_queue (try_load_to_memory ex_late 0))
   \<and> state (procs (try_load_to_memory ex_late 0) 0) = Suspended
   \<and> try_load_suspended (arrive_new_processes
        ((tick (tick ex_four))\<lparr>new_process_arrived := False, process_finished := False\<rparr>))
       = readmit (arrive_new_processes
           ((tick (tick ex_four))\<lparr>new_process_arrived := False, process_finished := False\<rparr>))
           (suspended_queue (arrive_new_processes
             ((tick (tick ex_four))\<lparr>new_process_arrived := False, process_finished := False\<rparr>)))"
proof -
  note rule = admission_rule [OF reachable_ex_four]
  have full: "degree_of_multiprogramming ex_full \<le> current_dom ex_full"
    by code_simp
  have ok: "current_dom ex_deg1 < degree_of_multiprogramming ex_deg1 \<and> snd (allocate_process ex_deg1 0)"
    by code_simp
  have no: "current_dom ex_late < degree_of_multiprogramming ex_late \<and> \<not> snd (allocate_process ex_late 0)"
    by code_simp
  from rule [THEN conjunct1, THEN spec, THEN spec, of ex_full 1] full
  have a: "state (procs (try_load_to_memory ex_full 1) 1) = Suspended
   \<and> 1 \<in> set (suspended_queue (try_load_to_memory ex_full 1))
   \<and> parts (try_load_to_memory ex_full 1) = parts ex_full"
    by blast
  from rule [THEN conjunct1, THEN spec, THEN spec, of ex_deg1 0] ok
  have b: "0 \<in> set (ready_queue (try_load_to_memory ex_deg1 0))
   \<and> state (procs (try_load_to_memory ex_deg1 0) 0) = Ready"
    by blast
  from rule [THEN conjunct1, THEN spec, THEN spec, of ex_late 0] no
  have c: "0 \<in> set (suspended_queue (try_load_to_memory ex_late 0))
   \<and> state (procs (try_load_to_memory ex_late 0) 0) = Suspended"
    by blast
  from a b c full ok no rule [THEN conjunct2, THEN conjunct2] show ?thesis by blast
qed

end
